theory Spec2Isabelle
  imports Main "HOL-Library.Word" "HOL-Library.Signed_Division"
begin

unbundle bit_operations_syntax

section \<open>The timer and sleep queue of devices/timer.c\<close>

text \<open>
  The C integer types of the source are machine words: \<open>int64_t\<close> and \<open>int32_t\<close> are
  two's complement (\<open>sint\<close> reads them, \<open><s\<close> and \<open>\<le>s\<close> compare them), \<open>unsigned\<close>
  and \<open>uint16_t\<close> are read by \<open>uint\<close>/\<open>unat\<close>. Arithmetic wraps around, as the
  compiled kernel does on x86-64.
\<close>

type_synonym int64_t = "64 word"
type_synonym int32_t = "32 word"
type_synonym unsigned = "32 word"
type_synonym uint16_t = "16 word"
type_synonym uint8_t = "8 word"

text \<open>C's \<open>/\<close> and \<open>%\<close> on signed operands truncate towards zero.\<close>

definition c_sdiv :: "'a::len word \<Rightarrow> 'a word \<Rightarrow> 'a word" where
  "c_sdiv a b = word_of_int (sint a sdiv sint b)"

definition c_smod :: "'a::len word \<Rightarrow> 'a word \<Rightarrow> 'a word" where
  "c_smod a b = word_of_int (sint a smod sint b)"

datatype error = Assertion_failed | Divide_error

datatype intr_level = INTR_OFF | INTR_ON

subsection \<open>timer\_init: programming the 8254\<close>

text \<open>
  \<open>TIMER_FREQ\<close> is a macro of devices/timer.h, an \<open>int\<close> constant; it is a parameter
  \<open>F\<close> here. Lines 63-68 reject a build with \<open>TIMER_FREQ < 19\<close> or \<open>TIMER_FREQ > 1000\<close>.
\<close>

definition timer_freq_accepted :: "int32_t \<Rightarrow> bool" where
  "timer_freq_accepted F \<longleftrightarrow> \<not> F <s 19 \<and> \<not> 1000 <s F"

text \<open>The \<open>int\<close> expression on the right of line 91, before it is narrowed.\<close>

definition pit_divisor :: "int32_t \<Rightarrow> int32_t" where
  "pit_divisor F = c_sdiv (1193180 + c_sdiv F 2) F"

text \<open>\<open>uint16_t count = (1193180 + TIMER_FREQ / 2) / TIMER_FREQ;\<close>\<close>

definition pit_count :: "int32_t \<Rightarrow> uint16_t" where
  "pit_count F = ucast (pit_divisor F)"

text \<open>The three \<open>outb\<close> calls of timer\_init, as (port, byte) pairs in program order.\<close>

definition timer_init_outb :: "int32_t \<Rightarrow> (uint16_t \<times> uint8_t) list" where
  "timer_init_outb F =
     (let count = pit_count F
      in [(0x43, 0x34), (0x40, ucast (count AND 0xff)), (0x40, ucast (drop_bit 8 count))])"

subsection \<open>busy\_wait\<close>

text \<open>
  \<open>while (loops-- > 0) barrier ();\<close>
  The test reads \<open>loops\<close> before the decrement; the result counts the executions of the
  loop body. The decrement of the failing test writes a value that is never read.
\<close>

function busy_wait :: "int64_t \<Rightarrow> nat" where
  "busy_wait loops = (if 0 <s loops then Suc (busy_wait (loops - 1)) else 0)"
  by pat_completeness auto

termination busy_wait
proof (relation "measure (\<lambda>loops. nat (sint loops))")
  show "wf (measure (\<lambda>loops::int64_t. nat (sint loops)))"
    by simp
next
  fix loops :: int64_t
  assume "0 <s loops"
  then have pos: "0 < sint loops"
    by (simp add: word_sless_alt)
  have "sint loops < 2 ^ 63"
    using sint_lt [of loops] by simp
  with pos have "signed_take_bit 63 (sint loops - 1) = sint loops - 1"
    by (intro signed_take_bit_int_eq_self) simp_all
  then have "sint (loops - 1) = sint loops - 1"
    by (simp add: sint_word_ariths)
  with pos show "(loops - 1, loops) \<in> measure (\<lambda>loops. nat (sint loops))"
    by simp
qed

declare busy_wait.simps [simp del]

subsection \<open>Kernel state\<close>

text \<open>
  \<open>ticks\<close>, \<open>loops_per_tick\<close> and \<open>sleeping_list\<close> are the statics of lines 71-77.
  Threads are named by a number. \<open>struct thread\<close> and \<open>enum thread_status\<close> are declared
  in threads/thread.h, which is not among the sources: \<open>wake_tick\<close> and \<open>status\<close> are the
  two fields the timer and the scheduler calls below read and write. The intrusive list
  \<open>sleeping_list\<close> is the sequence of the threads whose \<open>elem\<close> is linked into it, head
  first. \<open>unblock_calls\<close> records the calls of \<open>thread_unblock\<close> in the order they are made.
\<close>

type_synonym tid = nat

datatype thread_status = THREAD_RUNNING | THREAD_READY | THREAD_BLOCKED | THREAD_DYING

record kstate =
  ticks :: int64_t
  loops_per_tick :: unsigned
  sleeping_list :: "tid list"
  wake_tick :: "tid \<Rightarrow> int64_t"
  status :: "tid \<Rightarrow> thread_status"
  unblock_calls :: "tid list"

text \<open>
  Modelled from the spec: \<open>thread_block\<close>, \<open>thread_unblock\<close> and \<open>thread_tick\<close> live in
  threads/thread.c, which is not among the sources. The scheduler contract of the spec:
  \<open>block_current()\<close> blocks the current thread, \<open>unblock(thread)\<close> transitions a blocked
  thread to ready, \<open>tick_notify()\<close> is preemption bookkeeping (no effect on the state of
  the timer). \<open>thread_current ()\<close> is the parameter \<open>t\<close> of the functions below.
\<close>

definition thread_block :: "tid \<Rightarrow> kstate \<Rightarrow> kstate" where
  "thread_block t s = s\<lparr>status := (status s)(t := THREAD_BLOCKED)\<rparr>"

definition thread_unblock :: "tid \<Rightarrow> kstate \<Rightarrow> kstate" where
  "thread_unblock t s =
     s\<lparr>status := (status s)(t := THREAD_READY), unblock_calls := unblock_calls s @ [t]\<rparr>"

definition thread_tick :: "kstate \<Rightarrow> kstate" where
  "thread_tick s = s"

text \<open>
  Modelled from the spec: \<open>list_insert_ordered\<close> lives in lib/kernel/list.c, which is not
  among the sources. Step 5 of the spec's \<open>sleep\<close> has the new entry placed where the
  ascending order is kept, behind the entries it is not less than: the list is walked from
  the head and the element goes in front of the first entry \<open>e\<close> with
  \<open>less_func elem e\<close>, at the end when there is none.
\<close>

fun list_insert_ordered :: "('a \<Rightarrow> 'a \<Rightarrow> bool) \<Rightarrow> 'a \<Rightarrow> 'a list \<Rightarrow> 'a list" where
  "list_insert_ordered less_func elem [] = [elem]"
| "list_insert_ordered less_func elem (e # es) =
     (if less_func elem e then elem # e # es else e # list_insert_ordered less_func elem es)"

subsection \<open>timer\_ticks, timer\_elapsed\<close>

text \<open>The read of \<open>ticks\<close> happens with interrupts off, so it is one atomic read.\<close>

definition timer_ticks :: "kstate \<Rightarrow> int64_t" where
  "timer_ticks s = ticks s"

definition timer_elapsed :: "int64_t \<Rightarrow> kstate \<Rightarrow> int64_t" where
  "timer_elapsed then' s = timer_ticks s - then'"

subsection \<open>timer\_sleep\<close>

text \<open>\<open>return a1->wake_tick < b1->wake_tick;\<close>\<close>

definition wake_up_cmp :: "kstate \<Rightarrow> tid \<Rightarrow> tid \<Rightarrow> bool" where
  "wake_up_cmp s a b \<longleftrightarrow> wake_tick s a <s wake_tick s b"

text \<open>
  Lines 156-162, run with interrupts off by the thread \<open>t\<close> that \<open>thread_current ()\<close>
  returns: store the wake tick, link the thread into the list, block. The result is the
  state in which \<open>t\<close> is suspended inside \<open>thread_block\<close>.
\<close>

definition timer_sleep_block :: "tid \<Rightarrow> int64_t \<Rightarrow> int64_t \<Rightarrow> kstate \<Rightarrow> kstate" where
  "timer_sleep_block t start n s =
     (let s1 = s\<lparr>wake_tick := (wake_tick s)(t := start + n)\<rparr>;
          s2 = s1\<lparr>sleeping_list := list_insert_ordered (wake_up_cmp s1) t (sleeping_list s1)\<rparr>
      in thread_block t s2)"

text \<open>
  \<open>timer_sleep (ticks)\<close> when no interrupt falls between line 153 and line 156. The
  interleaving with the timer interrupt is the step function further down.
\<close>

definition timer_sleep :: "tid \<Rightarrow> int64_t \<Rightarrow> kstate \<Rightarrow> kstate" where
  "timer_sleep t n s =
     (let start = timer_ticks s
      in if n \<le>s 0 then s else timer_sleep_block t start n s)"

subsection \<open>timer\_interrupt\<close>

text \<open>
  The loop of lines 199-213. \<open>e\<close> is always the head of the list: \<open>list_remove\<close> unlinks
  it and returns its successor, the new head.
\<close>

function drain :: "kstate \<Rightarrow> kstate" where
  "drain s =
     (case sleeping_list s of
        [] \<Rightarrow> s
      | t # rest \<Rightarrow>
          if wake_tick s t \<le>s timer_ticks s
          then drain (thread_unblock t (s\<lparr>sleeping_list := rest\<rparr>))
          else s)"
  by pat_completeness auto

termination drain
  by (relation "measure (\<lambda>s. length (sleeping_list s))") (simp_all add: thread_unblock_def)

declare drain.simps [simp del]

definition timer_interrupt :: "kstate \<Rightarrow> kstate" where
  "timer_interrupt s = drain (thread_tick (s\<lparr>ticks := ticks s + 1\<rparr>))"

subsection \<open>Threads and interrupts interleaved\<close>

text \<open>
  Where a thread stands with respect to \<open>timer_sleep\<close>: outside it; past line 154 with
  \<open>start\<close> and the argument in its locals, interrupts still on; suspended in
  \<open>thread_block\<close> on line 162.
\<close>

datatype sleep_pc = Outside | Entered int64_t int64_t | Suspended int64_t int64_t

record config =
  kst :: kstate
  pc :: "tid \<Rightarrow> sleep_pc"

text \<open>
  The atomic steps of a uniprocessor run: a timer interrupt (taken whenever interrupts
  are on, that is between any two of the other steps); a thread that is not blocked
  entering \<open>timer_sleep\<close> (lines 153-154); the same thread running the critical section
  (lines 156-162); a thread that has been unblocked coming back from \<open>thread_block\<close> and
  returning (lines 162-164). A step that the configuration does not allow is \<open>None\<close>.
\<close>

datatype event = Tick | Enter tid int64_t | Block tid | Return tid

fun step :: "event \<Rightarrow> config \<Rightarrow> config option" where
  "step Tick c = Some (c\<lparr>kst := timer_interrupt (kst c)\<rparr>)"
| "step (Enter t n) c =
     (if pc c t = Outside \<and> status (kst c) t \<noteq> THREAD_BLOCKED
      then (let start = timer_ticks (kst c)
            in if n \<le>s 0 then Some c else Some (c\<lparr>pc := (pc c)(t := Entered start n)\<rparr>))
      else None)"
| "step (Block t) c =
     (case pc c t of
        Entered start n \<Rightarrow>
          if status (kst c) t \<noteq> THREAD_BLOCKED
          then Some (c\<lparr>kst := timer_sleep_block t start n (kst c),
                       pc := (pc c)(t := Suspended start n)\<rparr>)
          else None
      | _ \<Rightarrow> None)"
| "step (Return t) c =
     (case pc c t of
        Suspended start n \<Rightarrow>
          if status (kst c) t \<noteq> THREAD_BLOCKED
          then Some (c\<lparr>pc := (pc c)(t := Outside)\<rparr>)
          else None
      | _ \<Rightarrow> None)"

fun run :: "event list \<Rightarrow> config \<Rightarrow> config option" where
  "run [] c = Some c"
| "run (e # es) c = (case step e c of None \<Rightarrow> None | Some c' \<Rightarrow> run es c')"

text \<open>
  \<open>timer_init\<close>: the three port writes, and \<open>list_init\<close> empties the sleep queue.
  Registering the handler for vector 0x20 is what lets the \<open>Tick\<close> step happen.
\<close>

definition timer_init :: "int32_t \<Rightarrow> kstate \<Rightarrow> (uint16_t \<times> uint8_t) list \<times> kstate" where
  "timer_init F s = (timer_init_outb F, s\<lparr>sleeping_list := []\<rparr>)"

text \<open>
  The machine after \<open>timer_init\<close>: \<open>ticks\<close> and \<open>loops_per_tick\<close> are zero-initialised
  statics, \<open>list_init\<close> has emptied the list, no thread is inside \<open>timer_sleep\<close>.
\<close>

definition boot :: config where
  "boot = \<lparr>kst = \<lparr>ticks = 0, loops_per_tick = 0, sleeping_list = [],
                    wake_tick = (\<lambda>_. 0), status = (\<lambda>_. THREAD_READY), unblock_calls = []\<rparr>,
            pc = (\<lambda>_. Outside)\<rparr>"

subsection \<open>too\_many\_loops, timer\_calibrate\<close>

text \<open>
  \<open>too_many_loops\<close> spins until the timer interrupt has changed \<open>ticks\<close> (lines 221-223),
  reads \<open>ticks\<close>, runs \<open>busy_wait (loops)\<close> and reports whether \<open>ticks\<close> has changed
  meanwhile. The wait ends with the first interrupt; how many interrupts fall into the
  busy wait is a matter of the hardware: \<open>elapsed k\<close> is the number of timer interrupts
  taken while \<open>k\<close> loop bodies run from a tick boundary, and is a parameter. Every one of
  these interrupts runs the handler, which counts the tick and drains the sleep queue.
  The \<open>unsigned\<close> argument is converted to \<open>int64_t\<close> for \<open>busy_wait\<close>.
\<close>

definition too_many_loops :: "(nat \<Rightarrow> nat) \<Rightarrow> unsigned \<Rightarrow> kstate \<Rightarrow> bool \<times> kstate" where
  "too_many_loops elapsed loops s =
     (let s1 = timer_interrupt s;
          start = ticks s1;
          s2 = (timer_interrupt ^^ elapsed (busy_wait (ucast loops))) s1
      in (start \<noteq> ticks s2, s2))"

text \<open>
  Lines 112-115, on the global \<open>loops_per_tick\<close>. \<open>ASSERT (loops_per_tick != 0)\<close> panics
  the kernel.
\<close>

partial_function (option) coarse_loop :: "(nat \<Rightarrow> nat) \<Rightarrow> kstate \<Rightarrow> (error + kstate) option" where
  "coarse_loop elapsed s =
     (case too_many_loops elapsed (push_bit 1 (loops_per_tick s)) s of
        (too_many, s1) \<Rightarrow>
          if \<not> too_many
          then (let s2 = s1\<lparr>loops_per_tick := push_bit 1 (loops_per_tick s1)\<rparr>
                in if loops_per_tick s2 \<noteq> 0 then coarse_loop elapsed s2
                   else Some (Inl Assertion_failed))
          else Some (Inr s1))"

text \<open>
  Lines 119-121:
  \<open>for (test_bit = high_bit >> 1; test_bit != high_bit >> 10; test_bit >>= 1)
      if (!too_many_loops (high_bit | test_bit)) loops_per_tick |= test_bit;\<close>
\<close>

partial_function (option) refine_loop :: "(nat \<Rightarrow> nat) \<Rightarrow> unsigned \<Rightarrow> unsigned \<Rightarrow> kstate \<Rightarrow> kstate option" where
  "refine_loop elapsed high_bit test_bit s =
     (if test_bit \<noteq> drop_bit 10 high_bit
      then (case too_many_loops elapsed (high_bit OR test_bit) s of
              (too_many, s1) \<Rightarrow>
                if \<not> too_many
                then refine_loop elapsed high_bit (drop_bit 1 test_bit)
                       (s1\<lparr>loops_per_tick := loops_per_tick s1 OR test_bit\<rparr>)
                else refine_loop elapsed high_bit (drop_bit 1 test_bit) s1)
      else Some s)"

declare coarse_loop.simps [code]
declare refine_loop.simps [code]

text \<open>\<open>lvl\<close> is what \<open>intr_get_level ()\<close> returns. \<open>None\<close>: the function does not return.\<close>

definition timer_calibrate :: "(nat \<Rightarrow> nat) \<Rightarrow> intr_level \<Rightarrow> kstate \<Rightarrow> (error + kstate) option" where
  "timer_calibrate elapsed lvl s =
     (if lvl \<noteq> INTR_ON then Some (Inl Assertion_failed)
      else case coarse_loop elapsed (s\<lparr>loops_per_tick := push_bit 10 1\<rparr>) of
             None \<Rightarrow> None
           | Some (Inl e) \<Rightarrow> Some (Inl e)
           | Some (Inr s1) \<Rightarrow>
               (let high_bit = loops_per_tick s1
                in case refine_loop elapsed high_bit (drop_bit 1 high_bit) s1 of
                     None \<Rightarrow> None
                   | Some s2 \<Rightarrow> Some (Inr s2)))"

text \<open>
  What section 4.3 of the spec describes as the refinement phase, for comparison: the
  candidate bits \<open>H/2, \<dots>, H/2^10\<close>, each tried on top of the bits kept so far.
  \<open>k\<close> counts the candidates still to try, \<open>tml\<close> is the outcome of \<open>too_many_loops\<close>.
\<close>

fun spec_refine :: "(unsigned \<Rightarrow> bool) \<Rightarrow> nat \<Rightarrow> unsigned \<Rightarrow> unsigned \<Rightarrow> unsigned" where
  "spec_refine tml 0 b L = L"
| "spec_refine tml (Suc k) b L =
     spec_refine tml k (drop_bit 1 b) (if \<not> tml (L OR b) then L OR b else L)"

definition spec_refinement :: "(unsigned \<Rightarrow> bool) \<Rightarrow> unsigned \<Rightarrow> unsigned" where
  "spec_refinement tml H = spec_refine tml 10 (drop_bit 1 H) H"

subsection \<open>The order of the sleep queue\<close>

definition sq_sorted :: "kstate \<Rightarrow> bool" where
  "sq_sorted s \<longleftrightarrow> sorted_wrt (\<lambda>a b. wake_tick s a \<le>s wake_tick s b) (sleeping_list s)"

subsection \<open>real\_time\_sleep\<close>

text \<open>
  A 64-bit signed division traps on a zero divisor and on \<open>INT64_MIN / -1\<close>.
\<close>

definition div64 :: "int64_t \<Rightarrow> int64_t \<Rightarrow> error + int64_t" where
  "div64 a b =
     (if b = 0 \<or> (a = - (2 ^ 63) \<and> b = - 1) then Inl Divide_error else Inr (c_sdiv a b))"

text \<open>
  The result is the state the caller is left in and the number of loop bodies it has
  spun through. \<open>denom\<close> is an \<open>int32_t\<close>, \<open>TIMER_FREQ\<close> an \<open>int\<close>, \<open>loops_per_tick\<close> an
  \<open>unsigned\<close>: each is converted to \<open>int64_t\<close> where it meets \<open>num\<close>.
\<close>

definition real_time_sleep ::
  "int32_t \<Rightarrow> intr_level \<Rightarrow> tid \<Rightarrow> int64_t \<Rightarrow> int32_t \<Rightarrow> kstate \<Rightarrow> error + (kstate \<times> nat)" where
  "real_time_sleep F lvl t num denom s =
     (case div64 (num * scast F) (scast denom) of
        Inl e \<Rightarrow> Inl e
      | Inr ticks' \<Rightarrow>
          if lvl \<noteq> INTR_ON then Inl Assertion_failed
          else if 0 <s ticks' then Inr (timer_sleep t ticks' s, 0)
          else if c_smod denom 1000 \<noteq> 0 then Inl Assertion_failed
          else (case div64 (c_sdiv (ucast (loops_per_tick s) * num) 1000 * scast F)
                           (scast (c_sdiv denom 1000)) of
                  Inl e \<Rightarrow> Inl e
                | Inr loops \<Rightarrow> Inr (s, busy_wait loops)))"

definition timer_msleep :: "int32_t \<Rightarrow> intr_level \<Rightarrow> tid \<Rightarrow> int64_t \<Rightarrow> kstate \<Rightarrow> error + (kstate \<times> nat)" where
  "timer_msleep F lvl t ms s = real_time_sleep F lvl t ms 1000 s"

definition timer_usleep :: "int32_t \<Rightarrow> intr_level \<Rightarrow> tid \<Rightarrow> int64_t \<Rightarrow> kstate \<Rightarrow> error + (kstate \<times> nat)" where
  "timer_usleep F lvl t us s = real_time_sleep F lvl t us (1000 * 1000) s"

definition timer_nsleep :: "int32_t \<Rightarrow> intr_level \<Rightarrow> tid \<Rightarrow> int64_t \<Rightarrow> kstate \<Rightarrow> error + (kstate \<times> nat)" where
  "timer_nsleep F lvl t ns s = real_time_sleep F lvl t ns (1000 * 1000 * 1000) s"

text \<open>
  The arithmetic of section 4.5 of the spec over the integers, for comparison: the whole
  ticks, and the iterations of the sub-tick branch worked out from left to right.
\<close>

definition spec_whole :: "int \<Rightarrow> int \<Rightarrow> int \<Rightarrow> int" where
  "spec_whole num F denom = (num * F) sdiv denom"

definition spec_busy_loops :: "int \<Rightarrow> int \<Rightarrow> int \<Rightarrow> int \<Rightarrow> int" where
  "spec_busy_loops lpt num F denom = ((lpt * num) sdiv 1000 * F) sdiv (denom sdiv 1000)"

subsection \<open>Invariants of the interleaved runs\<close>

text \<open>
  The queue is sorted, holds no thread twice, and each of its members is blocked inside
  \<open>timer_sleep\<close> with the wake tick it stored on line 159.
\<close>

definition queue_inv :: "config \<Rightarrow> bool" where
  "queue_inv c \<longleftrightarrow>
     sq_sorted (kst c) \<and> distinct (sleeping_list (kst c)) \<and>
     (\<forall>t\<in>set (sleeping_list (kst c)).
        status (kst c) t = THREAD_BLOCKED \<and>
        (\<exists>start n. pc c t = Suspended start n \<and> wake_tick (kst c) t = start + n))"

text \<open>
  A thread suspended in \<open>timer_sleep\<close> asked for a positive number of ticks, and it is
  either still queued or its wake tick has been reached.
\<close>

definition wake_inv :: "config \<Rightarrow> bool" where
  "wake_inv c \<longleftrightarrow>
     (\<forall>t start n.
        (pc c t = Entered start n \<longrightarrow> 0 <s n) \<and>
        (pc c t = Suspended start n \<longrightarrow>
           0 <s n \<and> (t \<in> set (sleeping_list (kst c)) \<or> start + n \<le>s ticks (kst c))))"

text \<open>
  The order of service from the \<open>k\<close>-th unblock call on: the threads unblocked since,
  then the threads still queued, head first.
\<close>

definition service_order :: "nat \<Rightarrow> kstate \<Rightarrow> tid list" where
  "service_order k s = drop k (unblock_calls s) @ sleeping_list s"

subsection \<open>Concrete states and runs\<close>

text \<open>
  Tick 5 with three sleepers due at ticks 5, 6 and 7; a thread about to queue behind a
  sleeper with the same wake tick; a sleep of two ticks one and two ticks after it began;
  a sleep of \<open>INT64_MAX\<close> ticks begun at tick 1; two sleeps that end at tick 5, the first
  caller interrupted before it has queued itself; two machines, on which 1280 and 2047
  loop bodies fit into a tick, and the first of them as \<open>timer_calibrate\<close> leaves it when
  called right after \<open>timer_init\<close>.
\<close>

definition tick_example :: kstate where
  "tick_example = \<lparr>ticks = 5, loops_per_tick = 1534, sleeping_list = [1, 2, 3],
                    wake_tick = (\<lambda>t. if t = 1 then 5 else if t = 2 then 6 else 7),
                    status = (\<lambda>_. THREAD_BLOCKED), unblock_calls = []\<rparr>"

definition fifo_example :: config where
  "fifo_example =
     \<lparr>kst = \<lparr>ticks = 0, loops_per_tick = 0, sleeping_list = [1],
              wake_tick = (\<lambda>t. if t = 1 then 5 else 0),
              status = (\<lambda>t. if t = 1 then THREAD_BLOCKED else THREAD_READY),
              unblock_calls = []\<rparr>,
      pc = (\<lambda>t. if t = 1 then Suspended 0 5 else if t = 2 then Entered 0 5 else Outside)\<rparr>"

definition fifo_run :: "event list" where
  "fifo_run = [Tick, Tick, Tick, Tick, Tick]"

definition early_run :: "event list" where
  "early_run = [Enter 1 2, Block 1, Tick]"

definition due_run :: "event list" where
  "due_run = [Enter 1 2, Block 1, Tick, Tick]"

definition overflow_run :: "event list" where
  "overflow_run = [Tick, Enter 1 9223372036854775807, Block 1, Tick]"

definition overtaking_run :: "event list" where
  "overtaking_run = [Enter 1 5, Tick, Enter 2 4, Block 2, Block 1, Tick, Tick, Tick, Tick]"

definition elapsed_example :: "nat \<Rightarrow> nat" where
  "elapsed_example k = (if 1280 < k then 1 else 0)"

definition elapsed_example2 :: "nat \<Rightarrow> nat" where
  "elapsed_example2 k = (if 2047 < k then 1 else 0)"

definition too_many_example :: "unsigned \<Rightarrow> bool" where
  "too_many_example loops = fst (too_many_loops elapsed_example loops (kst boot))"

definition too_many_example2 :: "unsigned \<Rightarrow> bool" where
  "too_many_example2 loops = fst (too_many_loops elapsed_example2 loops (kst boot))"

definition calibrated_example :: kstate where
  "calibrated_example = (kst boot)\<lparr>ticks := 12, loops_per_tick := 1534\<rparr>"

section \<open>Theorems\<close>

subsection \<open>Arithmetic of the machine words\<close>

lemma sint_minus_one_64:
  fixes w :: int64_t
  assumes "0 <s w"
  shows "sint (w - 1) = sint w - 1"
proof -
  have pos: "0 < sint w"
    using assms by (simp add: word_sless_alt)
  have up: "sint w < 2 ^ 63"
    using sint_lt [of w] by simp
  have "sint (w - 1) = signed_take_bit 63 (sint w - 1)"
    by (simp add: sint_word_ariths)
  also have "\<dots> = sint w - 1"
    using pos up by (intro signed_take_bit_int_eq_self) simp_all
  finally show ?thesis .
qed

lemma sint_plus_one_64:
  fixes w :: int64_t
  assumes "sint w < 2 ^ 63 - 1"
  shows "sint (w + 1) = sint w + 1"
proof -
  have lo: "- (2 ^ 63) \<le> sint w"
    using sint_ge [of w] by simp
  have "sint (w + 1) = signed_take_bit 63 (sint w + 1)"
    by (simp add: sint_word_ariths)
  also have "\<dots> = sint w + 1"
    using lo assms by (intro signed_take_bit_int_eq_self) simp_all
  finally show ?thesis .
qed

lemma sint_of_int_32:
  "- (2 ^ 31) \<le> k \<Longrightarrow> k < 2 ^ 31 \<Longrightarrow> sint (word_of_int k :: 32 word) = k"
  by (simp add: sint_sbintrunc' signed_take_bit_int_eq_self)

lemma sint_of_int_64:
  "- (2 ^ 63) \<le> k \<Longrightarrow> k < 2 ^ 63 \<Longrightarrow> sint (word_of_int k :: 64 word) = k"
  by (simp add: sint_sbintrunc' signed_take_bit_int_eq_self)

lemma sdiv_nonneg_int:
  "0 \<le> a \<Longrightarrow> 0 \<le> b \<Longrightarrow> (a::int) sdiv b = a div b"
  by (simp add: signed_divide_int_def sgn_if)

lemma sdiv_pos_bounds:
  fixes a b :: int
  assumes "0 < b"
  shows "0 \<le> a \<Longrightarrow> 0 \<le> a sdiv b \<and> a sdiv b \<le> a"
    and "a \<le> 0 \<Longrightarrow> a \<le> a sdiv b \<and> a sdiv b \<le> 0"
proof -
  show "0 \<le> a sdiv b \<and> a sdiv b \<le> a" if "0 \<le> a"
  proof -
    have "a sdiv b = a div b"
      using that assms by (simp add: sdiv_nonneg_int)
    moreover have "0 \<le> a div b"
      using that assms by (simp add: pos_imp_zdiv_nonneg_iff)
    moreover have "a div b \<le> a"
      using that by (cases "a = 0") (simp_all add: int_div_le_self)
    ultimately show ?thesis by simp
  qed
  show "a \<le> a sdiv b \<and> a sdiv b \<le> 0" if "a \<le> 0"
  proof (cases "a = 0")
    case True
    then show ?thesis by simp
  next
    case False
    with that have neg: "a < 0" by simp
    then have eq: "a sdiv b = - ((- a) div b)"
      using assms by (simp add: signed_divide_int_def sgn_if)
    have "0 \<le> (- a) div b"
      using neg assms by (simp add: pos_imp_zdiv_nonneg_iff)
    moreover have "(- a) div b \<le> - a"
      using neg by (simp add: int_div_le_self)
    ultimately show ?thesis
      using eq by simp
  qed
qed

lemma abs_sdiv_1000_mult:
  assumes "0 \<le> f" "f \<le> 1000"
  shows "\<bar>(y::int) sdiv 1000 * f\<bar> \<le> \<bar>y\<bar>"
proof -
  have "\<bar>y sdiv 1000\<bar> = \<bar>y\<bar> div 1000"
    by (simp add: signed_divide_int_def abs_mult sgn_if)
  then have "\<bar>y sdiv 1000 * f\<bar> = (\<bar>y\<bar> div 1000) * f"
    using assms by (simp add: abs_mult)
  also have "\<dots> \<le> (\<bar>y\<bar> div 1000) * 1000"
    using assms by (intro mult_left_mono) simp_all
  also have "\<dots> \<le> \<bar>y\<bar>"
    using div_mult_mod_eq [of "\<bar>y\<bar>" 1000] pos_mod_sign [of 1000 "\<bar>y\<bar>"] by linarith
  finally show ?thesis .
qed

lemma sint_scast_32_64: "sint (scast (w::32 word) :: 64 word) = sint w"
  by (simp add: sint_up_scast is_up)

lemma sint_ucast_32_64: "sint (ucast (w::32 word) :: 64 word) = uint w"
proof -
  have "uint w < 2 ^ 32"
    using uint_bounded [of w] by simp
  moreover have "- (2 ^ 63) \<le> (0::int)"
    by simp
  then have "- (2 ^ 63) \<le> uint w"
    using uint_nonnegative [of w] by (rule order_trans)
  ultimately have "signed_take_bit 63 (uint w) = uint w"
    by (intro signed_take_bit_int_eq_self) simp_all
  then show ?thesis
    by (simp add: signed_ucast_eq)
qed

lemma sint_mult_64:
  fixes a b :: int64_t
  assumes "- (2 ^ 63) \<le> sint a * sint b" "sint a * sint b < 2 ^ 63"
  shows "sint (a * b) = sint a * sint b"
proof -
  have "sint (a * b) = signed_take_bit 63 (sint a * sint b)"
    by (simp add: sint_word_ariths)
  also have "\<dots> = sint a * sint b"
    using assms by (intro signed_take_bit_int_eq_self) simp_all
  finally show ?thesis .
qed

lemma sint_c_sdiv_pos_64:
  fixes a b :: int64_t
  assumes "0 < sint b"
  shows "sint (c_sdiv a b) = sint a sdiv sint b"
proof -
  have r: "- (2 ^ 63) \<le> sint a" "sint a < 2 ^ 63"
    using sint_ge [of a] sint_lt [of a] by simp_all
  have "- (2 ^ 63) \<le> sint a sdiv sint b \<and> sint a sdiv sint b < 2 ^ 63"
  proof (cases "0 \<le> sint a")
    case True
    from sdiv_pos_bounds(1) [OF assms True] r show ?thesis by simp
  next
    case False
    then have "sint a \<le> 0" by simp
    from sdiv_pos_bounds(2) [OF assms this] r show ?thesis by simp
  qed
  then show ?thesis
    by (simp add: c_sdiv_def sint_of_int_64)
qed

lemma c_smod_1000_eq_0:
  fixes denom :: int32_t
  shows "c_smod denom 1000 = 0 \<longleftrightarrow> sint denom smod 1000 = 0"
proof -
  have a: "\<bar>sint denom smod 1000\<bar> < 1000"
    by (simp add: signed_modulo_int_def abs_mult sgn_if)
  then have "sint (word_of_int (sint denom smod 1000) :: 32 word) = sint denom smod 1000"
    by (intro sint_of_int_32) simp_all
  moreover have "c_smod denom 1000 = word_of_int (sint denom smod 1000)"
    by (simp add: c_smod_def)
  ultimately show ?thesis
    by (metis sint_0 word_of_int_0)
qed

lemma c_sdiv_1000_32:
  fixes denom :: int32_t
  assumes "0 < sint denom" "sint denom smod 1000 = 0"
  shows "0 < sint (c_sdiv denom 1000)" and "sint (c_sdiv denom 1000) = sint denom sdiv 1000"
proof -
  have r: "sint denom < 2 ^ 31"
    using sint_lt [of denom] by simp
  have b: "0 \<le> sint denom sdiv 1000 \<and> sint denom sdiv 1000 \<le> sint denom"
    using assms(1) by (intro sdiv_pos_bounds(1)) simp_all
  then show eq: "sint (c_sdiv denom 1000) = sint denom sdiv 1000"
    using r by (simp add: c_sdiv_def sint_of_int_32)
  have "sint denom sdiv 1000 * 1000 + sint denom smod 1000 = sint denom"
    by (rule sdiv_mult_smod_eq)
  with assms have "sint denom sdiv 1000 \<noteq> 0"
    by auto
  with b eq show "0 < sint (c_sdiv denom 1000)"
    by simp
qed

subsection \<open>busy\_wait\<close>

lemma busy_wait_pos:
  "0 <s loops \<Longrightarrow> busy_wait loops = nat (sint loops)"
proof (induction loops rule: busy_wait.induct)
  case (1 loops)
  have eq: "sint (loops - 1) = sint loops - 1"
    using "1.prems" by (rule sint_minus_one_64)
  show ?case
  proof (cases "0 <s loops - 1")
    case True
    with "1.IH" "1.prems" eq show ?thesis
      by (subst busy_wait.simps) (simp add: word_sless_alt nat_diff_distrib)
  next
    case False
    then have "sint loops = 1"
      using "1.prems" eq by (simp add: word_sless_alt)
    moreover have "busy_wait (loops - 1) = 0"
      using False by (subst busy_wait.simps) simp
    ultimately show ?thesis
      using "1.prems" by (subst busy_wait.simps) simp
  qed
qed

lemma busy_wait_count: "busy_wait n = nat (sint n)"
proof (cases "0 <s n")
  case True
  then show ?thesis
    by (simp add: busy_wait_pos)
next
  case False
  then have "busy_wait n = 0"
    by (subst busy_wait.simps) simp
  with False show ?thesis
    by (simp add: word_sless_alt)
qed

text \<open>
  C10. \<open>busy_wait\<close> is a total function (its termination is proved above for every
  64-bit argument), and the number of loop bodies it executes is \<open>max n 0\<close>, the
  argument read as a signed number: none at all for \<open>n \<le> 0\<close>, as when
  \<open>real_time_sleep\<close> reaches its sub-tick branch with a negative \<open>num\<close>.
\<close>

theorem busy_wait_iterations:
  "busy_wait n = nat (max (sint n) 0) \<and> (n \<le>s 0 \<longrightarrow> busy_wait n = 0)"
proof (cases "0 <s n")
  case True
  then show ?thesis
    by (simp add: busy_wait_pos word_sless_alt word_sle_eq max_def)
next
  case False
  then have "busy_wait n = 0"
    by (subst busy_wait.simps) simp
  with False show ?thesis
    by (simp add: word_sless_alt max_def)
qed

theorem busy_wait_iterations_witness:
  "(- 76 :: int64_t) \<le>s 0 \<and> busy_wait (- 76) = 0 \<and> busy_wait 5 = 5
   \<and> map_sum id snd (real_time_sleep 100 INTR_ON 1 (- 500) 1000000 tick_example) = Inr 0"
proof -
  have h: "(- 76 :: int64_t) \<le>s 0"
    by (simp add: word_sle_eq)
  have a: "busy_wait (- 76) = 0"
    using busy_wait_iterations [of "- 76"] h by blast
  have b: "busy_wait 5 = 5"
    using busy_wait_iterations [of 5] by simp
  have c: "map_sum id snd (real_time_sleep 100 INTR_ON 1 (- 500) 1000000 tick_example) = Inr 0"
    by code_simp
  from h a b c show ?thesis by blast
qed

subsection \<open>timer\_init\<close>

lemma timer_freq_accepted_range:
  "timer_freq_accepted F \<Longrightarrow> 19 \<le> sint F \<and> sint F \<le> 1000"
  by (simp add: timer_freq_accepted_def word_sless_alt)

lemma pit_divisor_int:
  assumes "timer_freq_accepted F"
  shows "sint (pit_divisor F) = (1193180 + sint F div 2) div sint F"
proof -
  have r: "19 \<le> sint F" "sint F \<le> 1000"
    using timer_freq_accepted_range [OF assms] by simp_all
  have half: "sint (c_sdiv F 2) = sint F div 2"
    using r by (simp add: c_sdiv_def sdiv_nonneg_int sint_of_int_32)
  have "sint (1193180 + c_sdiv F 2) = signed_take_bit 31 (1193180 + sint F div 2)"
    by (simp add: sint_word_add half)
  also have "\<dots> = 1193180 + sint F div 2"
    using r by (intro signed_take_bit_int_eq_self) simp_all
  finally have num: "sint (1193180 + c_sdiv F 2) = 1193180 + sint F div 2" .
  have "(1193180 + sint F div 2) div sint F \<le> 1193180 + sint F div 2"
    using r by (intro int_div_le_self) simp_all
  then have "(1193180 + sint F div 2) div sint F < 2 ^ 31"
    using r by simp
  moreover have "0 \<le> (1193180 + sint F div 2) div sint F"
    using r by (simp add: pos_imp_zdiv_nonneg_iff)
  ultimately show ?thesis
    using r by (simp add: pit_divisor_def c_sdiv_def [of "1193180 + c_sdiv F 2"] num sdiv_nonneg_int sint_of_int_32)
qed

lemma pit_divisor_bound:
  assumes "19 \<le> (k::int)" "k \<le> 1000"
  shows "(1193180 + k div 2) div k \<le> 65535"
proof (rule ccontr)
  let ?a = "1193180 + k div 2"
  assume "\<not> ?a div k \<le> 65535"
  then have "65536 \<le> ?a div k" by simp
  then have "k * 65536 \<le> k * (?a div k)"
    using assms by (intro mult_left_mono) simp_all
  also have "\<dots> \<le> ?a"
    using assms mult_div_mod_eq [of k ?a] pos_mod_sign [of k ?a] by linarith
  finally show False
    using assms by simp
qed

text \<open>
  C9. For every \<open>TIMER_FREQ\<close> that passes the range check of lines 63-68, the \<open>int\<close>
  value \<open>(1193180 + TIMER_FREQ / 2) / TIMER_FREQ\<close> is the quotient over the integers, it
  is at most 65535, and the \<open>uint16_t count\<close> of \<open>timer_init\<close> holds that same number:
  the narrowing loses nothing.
\<close>

theorem pit_count_exact:
  assumes "timer_freq_accepted F"
  shows "sint (pit_divisor F) = (1193180 + sint F div 2) div sint F
       \<and> sint (pit_divisor F) \<le> 65535
       \<and> uint (pit_count F) = sint (pit_divisor F)"
proof -
  have r: "19 \<le> sint F" "sint F \<le> 1000"
    using timer_freq_accepted_range [OF assms] by simp_all
  have d: "sint (pit_divisor F) = (1193180 + sint F div 2) div sint F"
    using assms by (rule pit_divisor_int)
  have hi: "sint (pit_divisor F) \<le> 65535"
    unfolding d using r by (rule pit_divisor_bound)
  have lo: "0 \<le> sint (pit_divisor F)"
    unfolding d using r by (simp add: pos_imp_zdiv_nonneg_iff)
  have "uint (pit_divisor F) = take_bit 32 (sint (pit_divisor F))"
    using uint_sint [of "pit_divisor F"] by simp
  also have "\<dots> = sint (pit_divisor F)"
    using hi lo by (simp add: take_bit_int_eq_self)
  finally have u: "uint (pit_divisor F) = sint (pit_divisor F)" .
  have "uint (pit_count F) = take_bit 16 (uint (pit_divisor F))"
    by (simp add: pit_count_def unsigned_ucast_eq)
  also have "\<dots> = uint (pit_divisor F)"
    using hi lo u by (simp add: take_bit_int_eq_self)
  finally show ?thesis
    using d hi u by simp
qed

theorem pit_count_exact_witness:
  "timer_freq_accepted 19 \<and> uint (pit_count 19) = 62799 \<and> sint (pit_divisor 19) = 62799"
  using pit_count_exact [of 19] by (simp add: timer_freq_accepted_def)

subsection \<open>real\_time\_sleep\<close>

text \<open>
  C5, for products within the range of \<open>int64_t\<close>.
  \<open>real_time_sleep\<close> called with interrupts on, a frequency that passes
  the range check and a positive \<open>denom\<close> (its callers pass 10^3, 10^6 and 10^9), for
  \<open>num\<close> whose product with \<open>TIMER_FREQ\<close> fits into an \<open>int64_t\<close>: the ticks it
  computes are \<open>num * F / denom\<close> over the integers, rounded towards zero. If they are
  positive it calls \<open>timer_sleep\<close> on them and spins through no loop. Otherwise it fails
  the assertion unless \<open>denom % 1000 == 0\<close>, and then, if also \<open>loops_per_tick * num\<close> fits
  into an \<open>int64_t\<close>, hands \<open>loops_per_tick * num / 1000 * F / (denom / 1000)\<close>, worked
  out from left to right with truncating divisions, to \<open>busy_wait\<close>, which runs that many
  loop bodies (none when the number is negative); the state is untouched.
\<close>

theorem real_time_sleep_dispatch:
  assumes F: "timer_freq_accepted F" and d: "0 < sint denom"
    and lo: "- (2 ^ 63) \<le> sint num * sint F" and hi: "sint num * sint F < 2 ^ 63"
  shows "(0 < spec_whole (sint num) (sint F) (sint denom) \<longrightarrow>
            real_time_sleep F INTR_ON t num denom s =
              Inr (timer_sleep t (word_of_int (spec_whole (sint num) (sint F) (sint denom))) s, 0))
       \<and> (spec_whole (sint num) (sint F) (sint denom) \<le> 0 \<and> sint denom smod 1000 \<noteq> 0 \<longrightarrow>
            real_time_sleep F INTR_ON t num denom s = Inl Assertion_failed)
       \<and> (spec_whole (sint num) (sint F) (sint denom) \<le> 0 \<and> sint denom smod 1000 = 0
            \<and> - (2 ^ 63) \<le> uint (loops_per_tick s) * sint num
            \<and> uint (loops_per_tick s) * sint num < 2 ^ 63 \<longrightarrow>
            real_time_sleep F INTR_ON t num denom s =
              Inr (s, nat (spec_busy_loops (uint (loops_per_tick s)) (sint num) (sint F) (sint denom))))"
proof -
  let ?whole = "spec_whole (sint num) (sint F) (sint denom)"
  have f: "19 \<le> sint F" "sint F \<le> 1000"
    using timer_freq_accepted_range [OF F] by simp_all
  have sF: "sint (scast F :: int64_t) = sint F"
    by (rule sint_scast_32_64)
  have sd: "sint (scast denom :: int64_t) = sint denom"
    by (rule sint_scast_32_64)
  have prod: "sint (num * scast F) = sint num * sint F"
    using lo hi by (simp add: sint_mult_64 sF)
  have dn0: "(scast denom :: int64_t) \<noteq> 0" "(scast denom :: int64_t) \<noteq> - 1"
    using d sd by (metis less_irrefl sint_0, metis sint_n1 not_less_iff_gr_or_eq less_trans zero_less_one neg_less_0_iff_less)
  have div1: "div64 (num * scast F) (scast denom) = Inr (c_sdiv (num * scast F) (scast denom))"
    using dn0 by (simp add: div64_def)
  have w: "sint (c_sdiv (num * scast F) (scast denom)) = ?whole"
    using d by (simp add: sint_c_sdiv_pos_64 sd prod spec_whole_def)
  have wv: "c_sdiv (num * scast F) (scast denom) = word_of_int ?whole"
    by (simp add: c_sdiv_def sd prod spec_whole_def)
  have a: "real_time_sleep F INTR_ON t num denom s = Inr (timer_sleep t (word_of_int ?whole) s, 0)"
    if "0 < ?whole"
    using that w by (simp add: real_time_sleep_def div1 word_sless_alt wv)
  have b: "real_time_sleep F INTR_ON t num denom s = Inl Assertion_failed"
    if "?whole \<le> 0" "sint denom smod 1000 \<noteq> 0"
    using that w by (simp add: real_time_sleep_def div1 word_sless_alt c_smod_1000_eq_0)
  have c: "real_time_sleep F INTR_ON t num denom s =
             Inr (s, nat (spec_busy_loops (uint (loops_per_tick s)) (sint num) (sint F) (sint denom)))"
    if nw: "?whole \<le> 0" and m: "sint denom smod 1000 = 0"
      and l1: "- (2 ^ 63) \<le> uint (loops_per_tick s) * sint num"
      and l2: "uint (loops_per_tick s) * sint num < 2 ^ 63"
  proof -
    let ?y = "uint (loops_per_tick s) * sint num"
    let ?x = "c_sdiv (ucast (loops_per_tick s) * num) 1000 * scast F :: int64_t"
    let ?d = "scast (c_sdiv denom 1000) :: int64_t"
    have y: "sint (ucast (loops_per_tick s) * num :: int64_t) = ?y"
      using l1 l2 by (simp add: sint_mult_64 sint_ucast_32_64)
    have y1: "sint (c_sdiv (ucast (loops_per_tick s) * num) 1000 :: int64_t) = ?y sdiv 1000"
      by (simp add: sint_c_sdiv_pos_64 y)
    have mag: "\<bar>?y sdiv 1000 * sint F\<bar> \<le> \<bar>?y\<bar>"
      using f by (intro abs_sdiv_1000_mult) simp_all
    have "- (2 ^ 63) \<le> ?y sdiv 1000 * sint F \<and> ?y sdiv 1000 * sint F < 2 ^ 63"
    proof (cases "0 \<le> ?y")
      case True
      then have "0 \<le> ?y sdiv 1000"
        using sdiv_pos_bounds(1) [of 1000 ?y] by simp
      then have "0 \<le> ?y sdiv 1000 * sint F"
        using f by simp
      with mag True l2 show ?thesis by linarith
    next
      case False
      then have "?y sdiv 1000 \<le> 0"
        using sdiv_pos_bounds(2) [of 1000 ?y] by simp
      then have "?y sdiv 1000 * sint F \<le> 0"
        using f by (intro mult_nonpos_nonneg) simp_all
      with mag False l1 show ?thesis by linarith
    qed
    then have x: "sint ?x = ?y sdiv 1000 * sint F"
      by (simp add: sint_mult_64 y1 sF)
    have dpos: "0 < sint ?d" and dv: "sint ?d = sint denom sdiv 1000"
      using c_sdiv_1000_32 [OF d m] by (simp_all add: sint_scast_32_64)
    have d0: "?d \<noteq> 0" "?d \<noteq> - 1"
      using dpos by (metis less_irrefl sint_0, metis sint_n1 not_less_iff_gr_or_eq less_trans zero_less_one neg_less_0_iff_less)
    have div2: "div64 ?x ?d = Inr (c_sdiv ?x ?d)"
      using d0 by (simp add: div64_def)
    have "sint (c_sdiv ?x ?d) = sint ?x sdiv sint ?d"
      using dpos by (rule sint_c_sdiv_pos_64)
    then have "sint (c_sdiv ?x ?d) =
               spec_busy_loops (uint (loops_per_tick s)) (sint num) (sint F) (sint denom)"
      by (simp add: x dv spec_busy_loops_def)
    then show ?thesis
      using nw m w
      by (simp add: real_time_sleep_def div1 div2 word_sless_alt c_smod_1000_eq_0
            busy_wait_count)
  qed
  from a b c show ?thesis by blast
qed

theorem real_time_sleep_dispatch_witness:
  "timer_freq_accepted 100 \<and> 0 < sint (1000000 :: int32_t)
   \<and> status calibrated_example 1 = THREAD_READY \<and> 1 \<notin> set (sleeping_list calibrated_example)
   \<and> spec_whole 10000 100 1000000 = 1
   \<and> real_time_sleep 100 INTR_ON 1 10000 1000000 calibrated_example
        = Inr (timer_sleep 1 1 calibrated_example, 0)
   \<and> spec_whole 500 100 1000000 = 0 \<and> (1000000 :: int) smod 1000 = 0
   \<and> spec_busy_loops 1534 500 100 1000000 = 76
   \<and> real_time_sleep 100 INTR_ON 1 500 1000000 calibrated_example
        = Inr (calibrated_example, 76)
   \<and> spec_whole 5 100 1500 = 0 \<and> (1500 :: int) smod 1000 \<noteq> 0
   \<and> real_time_sleep 100 INTR_ON 1 5 1500 calibrated_example = Inl Assertion_failed"
proof -
  have F: "timer_freq_accepted 100"
    by (simp add: timer_freq_accepted_def)
  have d: "0 < sint (1000000 :: int32_t)" "0 < sint (1500 :: int32_t)"
    by simp_all
  have v: "spec_whole 10000 100 1000000 = 1" "spec_whole 500 100 1000000 = 0"
    "spec_whole 5 100 1500 = 0" "spec_busy_loops 1534 500 100 1000000 = 76"
    "(1000000 :: int) smod 1000 = 0" "(1500 :: int) smod 1000 \<noteq> 0"
    by (simp_all add: spec_whole_def spec_busy_loops_def signed_divide_int_def
          signed_modulo_int_def)
  have l: "uint (loops_per_tick calibrated_example) = 1534"
    by (simp add: calibrated_example_def)
  have r: "status calibrated_example 1 = THREAD_READY"
    "1 \<notin> set (sleeping_list calibrated_example)"
    by (simp_all add: calibrated_example_def boot_def)
  have a: "real_time_sleep 100 INTR_ON 1 10000 1000000 calibrated_example
             = Inr (timer_sleep 1 1 calibrated_example, 0)"
    using real_time_sleep_dispatch [OF F d(1), of 10000 1 calibrated_example] v by simp
  have b: "real_time_sleep 100 INTR_ON 1 500 1000000 calibrated_example
             = Inr (calibrated_example, 76)"
    using real_time_sleep_dispatch [OF F d(1), of 500 1 calibrated_example] v l by simp
  have c: "real_time_sleep 100 INTR_ON 1 5 1500 calibrated_example = Inl Assertion_failed"
    using real_time_sleep_dispatch [OF F d(2), of 5 1 calibrated_example] v by simp
  from F d v r a b c show ?thesis by simp
qed

text \<open>
  \<open>timer_msleep (INT64_MAX)\<close> on the calibrated machine at 100 Hz: \<open>num * TIMER_FREQ\<close>
  wraps to -100, so line 257 computes no whole tick where the quotient over the integers
  is 922337203685477580; \<open>loops_per_tick * num\<close> wraps as well, \<open>busy_wait\<close> is handed a
  negative number and the call returns at once, having slept through no tick and run no
  loop body.
\<close>

theorem real_time_sleep_overflow_counterexample:
  "timer_freq_accepted 100
   \<and> timer_msleep 100 INTR_ON 1 9223372036854775807 calibrated_example
        = Inr (calibrated_example, 0)
   \<and> spec_whole (sint (9223372036854775807 :: int64_t)) (sint (100 :: int32_t))
        (sint (1000 :: int32_t)) = 922337203685477580
   \<and> sint (9223372036854775807 * scast (100 :: int32_t) :: int64_t) = - 100"
proof -
  have F: "timer_freq_accepted 100"
    by (simp add: timer_freq_accepted_def)
  have w: "spec_whole (sint (9223372036854775807 :: int64_t)) (sint (100 :: int32_t))
             (sint (1000 :: int32_t)) = 922337203685477580"
    by (simp add: spec_whole_def signed_divide_int_def)
  have p: "sint (9223372036854775807 * scast (100 :: int32_t) :: int64_t) = - 100"
    by simp
  have d1: "div64 (9223372036854775807 * scast (100 :: int32_t)) (scast (1000 :: int32_t))
              = Inr 0"
    by code_simp
  have r: "c_smod (1000 :: int32_t) 1000 = 0"
    by code_simp
  have d2: "div64 (c_sdiv (ucast (loops_per_tick calibrated_example) * 9223372036854775807) 1000
                     * scast (100 :: int32_t))
                  (scast (c_sdiv (1000 :: int32_t) 1000)) = Inr (- 100)"
    by code_simp
  have bw: "busy_wait (- 100) = 0"
    by (simp add: busy_wait_count)
  have m: "timer_msleep 100 INTR_ON 1 9223372036854775807 calibrated_example
             = Inr (calibrated_example, 0)"
    unfolding timer_msleep_def real_time_sleep_def d1 r d2
    by (simp add: word_sless_alt bw)
  from F w p m show ?thesis by simp
qed

subsection \<open>timer\_calibrate\<close>

lemma too_many_loops_unat [code]:
  "too_many_loops elapsed loops s =
     (let s1 = timer_interrupt s;
          start = ticks s1;
          s2 = (timer_interrupt ^^ elapsed (unat loops)) s1
      in (start \<noteq> ticks s2, s2))"
proof -
  have "sint (ucast loops :: int64_t) = uint loops"
    by (rule sint_ucast_32_64)
  then have "busy_wait (ucast loops) = unat loops"
    by (simp add: busy_wait_count)
  then show ?thesis
    by (simp add: too_many_loops_def)
qed

lemma drain_idle: "sleeping_list s = [] \<Longrightarrow> drain s = s"
  by (subst drain.simps) simp

lemma timer_interrupt_idle:
  "sleeping_list s = [] \<Longrightarrow> timer_interrupt s = s\<lparr>ticks := ticks s + 1\<rparr>"
  by (simp add: timer_interrupt_def thread_tick_def drain_idle)

lemma funpow_timer_interrupt_idle:
  "sleeping_list s = [] \<Longrightarrow> (timer_interrupt ^^ k) s = s\<lparr>ticks := ticks s + of_nat k\<rparr>"
  by (induction k) (simp_all add: timer_interrupt_idle add.assoc)

text \<open>
  With nobody asleep a call of \<open>too_many_loops\<close> costs one tick of waiting and the ticks
  that pass during the busy wait, and changes nothing else.
\<close>

lemma too_many_loops_idle:
  assumes "sleeping_list s = []"
  shows "too_many_loops elapsed loops s =
           (of_nat (elapsed (unat loops)) \<noteq> (0 :: int64_t),
            s\<lparr>ticks := ticks s + 1 + of_nat (elapsed (unat loops))\<rparr>)"
  using assms
  by (simp add: too_many_loops_unat Let_def timer_interrupt_idle funpow_timer_interrupt_idle)

lemma ten_Suc: "(10 :: nat) = Suc (Suc (Suc (Suc (Suc (Suc (Suc (Suc (Suc (Suc 0)))))))))"
  by simp

text \<open>
  C1. \<open>timer_calibrate\<close> called right after \<open>timer_init\<close>, with interrupts on, on a machine
  where exactly 1280 loop bodies fit into a tick: the coarse phase stops at \<open>H = 1024\<close>,
  twelve ticks pass, and lines 119-121 leave \<open>loops_per_tick = 1534\<close>, a count that does
  not fit into a tick (\<open>too_many_loops (1534)\<close> holds), where the refinement the claim
  describes gives 1280, which fits. Bit 128 is kept although \<open>too_many_loops (1280 | 128)\<close>
  holds, because line 120 measures \<open>high_bit | test_bit\<close>, here \<open>1024 | 128\<close>, while line 121
  accumulates into \<open>loops_per_tick\<close>. On a machine where 2047 loop bodies fit the code
  leaves 2046 and the claim's ten candidates give 2047: the loop of line 119 ends before
  the candidate \<open>H/2^10\<close>, although 2047 loops do not cross a tick.
\<close>

theorem timer_calibrate_overshoots:
  "timer_calibrate elapsed_example INTR_ON (kst boot) = Some (Inr calibrated_example)
   \<and> loops_per_tick calibrated_example = 1534
   \<and> too_many_example 1534 \<and> \<not> too_many_example 1280
   \<and> spec_refinement too_many_example 1024 = 1280
   \<and> too_many_example (1280 OR 128) \<and> \<not> too_many_example (1024 OR 128)
   \<and> timer_calibrate elapsed_example2 INTR_ON (kst boot)
       = Some (Inr ((kst boot)\<lparr>ticks := 11, loops_per_tick := 2046\<rparr>))
   \<and> spec_refinement too_many_example2 1024 = 2047
   \<and> \<not> too_many_example2 2047"
proof -
  have a: "timer_calibrate elapsed_example INTR_ON (kst boot) = Some (Inr calibrated_example)"
    by (simp add: timer_calibrate_def coarse_loop.simps refine_loop.simps too_many_loops_idle
          elapsed_example_def boot_def calibrated_example_def)
  have b: "loops_per_tick calibrated_example = 1534"
    by (simp add: calibrated_example_def)
  have c: "too_many_example 1534" "\<not> too_many_example 1280"
    "too_many_example (1280 OR 128)" "\<not> too_many_example (1024 OR 128)"
    by (simp_all add: too_many_example_def too_many_loops_idle elapsed_example_def boot_def)
  have d: "spec_refinement too_many_example 1024 = 1280"
    unfolding spec_refinement_def ten_Suc
    by (simp add: too_many_example_def too_many_loops_idle elapsed_example_def boot_def)
  have e: "timer_calibrate elapsed_example2 INTR_ON (kst boot)
             = Some (Inr ((kst boot)\<lparr>ticks := 11, loops_per_tick := 2046\<rparr>))"
    by (simp add: timer_calibrate_def coarse_loop.simps refine_loop.simps too_many_loops_idle
          elapsed_example2_def boot_def)
  have f: "spec_refinement too_many_example2 1024 = 2047"
    unfolding spec_refinement_def ten_Suc
    by (simp add: too_many_example2_def too_many_loops_idle elapsed_example2_def boot_def)
  have g: "\<not> too_many_example2 2047"
    by (simp add: too_many_example2_def too_many_loops_idle elapsed_example2_def boot_def)
  from a b c d e f g show ?thesis by simp
qed

subsection \<open>The drain loop of the timer interrupt\<close>

lemma drain_ticks [simp]: "ticks (drain s) = ticks s"
  by (induction s rule: drain.induct)
     (subst drain.simps, simp add: thread_unblock_def split: list.splits)

lemma drain_wake_tick [simp]: "wake_tick (drain s) = wake_tick s"
  by (induction s rule: drain.induct)
     (subst drain.simps, simp add: thread_unblock_def split: list.splits)

lemma drain_loops_per_tick [simp]: "loops_per_tick (drain s) = loops_per_tick s"
  by (induction s rule: drain.induct)
     (subst drain.simps, simp add: thread_unblock_def split: list.splits)

lemma drain_sleeping_list:
  "sleeping_list (drain s) = dropWhile (\<lambda>t. wake_tick s t \<le>s ticks s) (sleeping_list s)"
  by (induction s rule: drain.induct)
     (subst drain.simps, simp add: thread_unblock_def timer_ticks_def split: list.splits)

lemma drain_unblock_calls:
  "unblock_calls (drain s) =
     unblock_calls s @ takeWhile (\<lambda>t. wake_tick s t \<le>s ticks s) (sleeping_list s)"
  by (induction s rule: drain.induct)
     (subst drain.simps, simp add: thread_unblock_def timer_ticks_def split: list.splits)

lemma drain_status:
  "status (drain s) u =
     (if u \<in> set (takeWhile (\<lambda>t. wake_tick s t \<le>s ticks s) (sleeping_list s))
      then THREAD_READY else status s u)"
  by (induction s rule: drain.induct)
     (subst drain.simps, simp add: thread_unblock_def timer_ticks_def split: list.splits)

lemma timer_interrupt_fields:
  "ticks (timer_interrupt s) = ticks s + 1"
  "loops_per_tick (timer_interrupt s) = loops_per_tick s"
  "wake_tick (timer_interrupt s) = wake_tick s"
  "sleeping_list (timer_interrupt s) =
     dropWhile (\<lambda>t. wake_tick s t \<le>s ticks s + 1) (sleeping_list s)"
  "unblock_calls (timer_interrupt s) =
     unblock_calls s @ takeWhile (\<lambda>t. wake_tick s t \<le>s ticks s + 1) (sleeping_list s)"
  "status (timer_interrupt s) u =
     (if u \<in> set (takeWhile (\<lambda>t. wake_tick s t \<le>s ticks s + 1) (sleeping_list s))
      then THREAD_READY else status s u)"
  by (simp_all add: timer_interrupt_def thread_tick_def drain_sleeping_list
        drain_unblock_calls drain_status)

subsection \<open>Ordered insertion\<close>

lemma list_insert_ordered_split:
  "list_insert_ordered lt x xs =
     takeWhile (\<lambda>e. \<not> lt x e) xs @ x # dropWhile (\<lambda>e. \<not> lt x e) xs"
  by (induction xs) simp_all

lemma set_list_insert_ordered:
  "set (list_insert_ordered lt x xs) = insert x (set xs)"
  by (induction xs) auto

lemma distinct_list_insert_ordered:
  "distinct xs \<Longrightarrow> x \<notin> set xs \<Longrightarrow> distinct (list_insert_ordered lt x xs)"
  by (induction xs) (auto simp: set_list_insert_ordered)

lemma sorted_list_insert_ordered:
  fixes f :: "'a \<Rightarrow> 'b::len word"
  assumes "sorted_wrt (\<lambda>a b. f a \<le>s f b) xs"
  shows "sorted_wrt (\<lambda>a b. f a \<le>s f b) (list_insert_ordered (\<lambda>a b. f a <s f b) x xs)"
  using assms
proof (induction xs)
  case Nil
  then show ?case by simp
next
  case (Cons e es)
  show ?case
  proof (cases "f x <s f e")
    case True
    have "f x \<le>s f b" if "b \<in> set es" for b
    proof -
      from Cons.prems that have "f e \<le>s f b" by simp
      with True show ?thesis
        by (simp add: word_sle_eq word_sless_alt)
    qed
    with True Cons.prems show ?thesis
      by (simp add: word_sle_eq word_sless_alt)
  next
    case False
    then have "f e \<le>s f x"
      by (simp add: word_sle_eq word_sless_alt)
    with False Cons show ?thesis
      by (auto simp: set_list_insert_ordered)
  qed
qed

lemma sorted_takeWhile_filter:
  fixes f :: "'a \<Rightarrow> 'b::len word"
  assumes "sorted_wrt (\<lambda>a b. f a \<le>s f b) xs"
  shows "set (takeWhile (\<lambda>e. f e \<le>s w) xs) = {e \<in> set xs. f e \<le>s w}"
    and "set (dropWhile (\<lambda>e. f e \<le>s w) xs) = {e \<in> set xs. w <s f e}"
  using assms
proof (induction xs)
  case Nil
  { case 1 show ?case by simp }
  { case 2 show ?case by simp }
next
  case (Cons e es)
  { case 1
    then have "sorted_wrt (\<lambda>a b. f a \<le>s f b) es" and le: "\<forall>b\<in>set es. f e \<le>s f b"
      by simp_all
    with Cons.IH(1) have ih: "set (takeWhile (\<lambda>e. f e \<le>s w) es) = {e \<in> set es. f e \<le>s w}"
      by simp
    show ?case
    proof (cases "f e \<le>s w")
      case True
      with ih show ?thesis by auto
    next
      case False
      with le have "\<not> f b \<le>s w" if "b \<in> set es" for b
        using that by (auto simp: word_sle_eq)
      with False show ?thesis by auto
    qed }
  { case 2
    then have "sorted_wrt (\<lambda>a b. f a \<le>s f b) es" and le: "\<forall>b\<in>set es. f e \<le>s f b"
      by simp_all
    with Cons.IH(2) have ih: "set (dropWhile (\<lambda>e. f e \<le>s w) es) = {e \<in> set es. w <s f e}"
      by simp
    show ?case
    proof (cases "f e \<le>s w")
      case True
      with ih show ?thesis by (auto simp: word_sle_eq word_sless_alt)
    next
      case False
      with le have "w <s f b" if "b \<in> set es" for b
        using that by (auto simp: word_sle_eq word_sless_alt)
      with False show ?thesis by (auto simp: word_sle_eq word_sless_alt)
    qed }
qed

lemma timer_sleep_block_fields:
  "ticks (timer_sleep_block t start n s) = ticks s"
  "loops_per_tick (timer_sleep_block t start n s) = loops_per_tick s"
  "unblock_calls (timer_sleep_block t start n s) = unblock_calls s"
  "wake_tick (timer_sleep_block t start n s) = (wake_tick s)(t := start + n)"
  "status (timer_sleep_block t start n s) = (status s)(t := THREAD_BLOCKED)"
  by (simp_all add: timer_sleep_block_def thread_block_def Let_def)

lemma timer_sleep_block_list:
  assumes "t \<notin> set (sleeping_list s)"
  shows "sleeping_list (timer_sleep_block t start n s) =
           takeWhile (\<lambda>u. wake_tick s u \<le>s start + n) (sleeping_list s) @ t #
           dropWhile (\<lambda>u. wake_tick s u \<le>s start + n) (sleeping_list s)"
proof -
  let ?lt = "wake_up_cmp (s\<lparr>wake_tick := (wake_tick s)(t := start + n)\<rparr>) t"
  have eq: "(\<not> ?lt u) = (wake_tick s u \<le>s start + n)" if "u \<in> set (sleeping_list s)" for u
    using that assms by (auto simp: wake_up_cmp_def word_sle_eq word_sless_alt)
  have tw: "takeWhile (\<lambda>u. \<not> ?lt u) (sleeping_list s) =
            takeWhile (\<lambda>u. wake_tick s u \<le>s start + n) (sleeping_list s)"
    by (rule takeWhile_cong) (simp_all add: eq)
  have dw: "dropWhile (\<lambda>u. \<not> ?lt u) (sleeping_list s) =
            dropWhile (\<lambda>u. wake_tick s u \<le>s start + n) (sleeping_list s)"
    by (rule dropWhile_cong) (simp_all add: eq)
  show ?thesis
    by (simp add: timer_sleep_block_def thread_block_def Let_def list_insert_ordered_split tw dw)
qed

subsection \<open>The sleep queue stays sorted\<close>

lemma sq_sorted_timer_sleep_block:
  assumes "sq_sorted s" "t \<notin> set (sleeping_list s)"
  shows "sq_sorted (timer_sleep_block t start n s)"
proof -
  let ?f = "(wake_tick s)(t := start + n)"
  have "sorted_wrt (\<lambda>a b. ?f a \<le>s ?f b) (sleeping_list s)"
    using assms
    by (auto simp: sq_sorted_def intro: sorted_wrt_mono_rel [rotated])
  then have "sorted_wrt (\<lambda>a b. ?f a \<le>s ?f b)
               (list_insert_ordered (\<lambda>a b. ?f a <s ?f b) t (sleeping_list s))"
    by (rule sorted_list_insert_ordered)
  then show ?thesis
    by (simp add: sq_sorted_def timer_sleep_block_def thread_block_def Let_def wake_up_cmp_def [abs_def])
qed

lemma sq_sorted_timer_sleep:
  "sq_sorted s \<Longrightarrow> t \<notin> set (sleeping_list s) \<Longrightarrow> sq_sorted (timer_sleep t n s)"
  by (simp add: timer_sleep_def sq_sorted_timer_sleep_block)

lemma sq_sorted_timer_interrupt:
  "sq_sorted s \<Longrightarrow> sq_sorted (timer_interrupt s)"
  by (simp add: sq_sorted_def timer_interrupt_fields sorted_wrt_dropWhile)

lemma queue_inv_boot: "queue_inv boot"
  by (simp add: queue_inv_def boot_def sq_sorted_def)

lemma queue_inv_step:
  assumes "queue_inv c" "step e c = Some c'"
  shows "queue_inv c'"
proof (cases e)
  case Tick
  let ?s = "kst c"
  let ?due = "\<lambda>t. wake_tick ?s t \<le>s ticks ?s + 1"
  have c': "c' = c\<lparr>kst := timer_interrupt ?s\<rparr>"
    using assms(2) Tick by simp
  have sorted: "sorted_wrt (\<lambda>a b. wake_tick ?s a \<le>s wake_tick ?s b) (sleeping_list ?s)"
    using assms(1) by (simp add: queue_inv_def sq_sorted_def)
  have sub: "set (dropWhile ?due (sleeping_list ?s)) \<subseteq> set (sleeping_list ?s)"
    by (rule set_dropWhileD [THEN subsetI])
  have notin: "t \<notin> set (takeWhile ?due (sleeping_list ?s))"
    if "t \<in> set (dropWhile ?due (sleeping_list ?s))" for t
    using that sorted_takeWhile_filter [OF sorted, of "ticks ?s + 1"]
    by (auto simp: word_sle_eq word_sless_alt)
  show ?thesis
    unfolding queue_inv_def c'
    using assms(1) sub notin
    by (auto simp: queue_inv_def timer_interrupt_fields sq_sorted_def sorted_wrt_dropWhile
          distinct_dropWhile)
next
  case (Enter t n)
  with assms show ?thesis
    by (auto simp: queue_inv_def Let_def split: if_splits) 
next
  case (Block t)
  from assms(2) Block obtain start n where
    pc: "pc c t = Entered start n" and
    c': "c' = c\<lparr>kst := timer_sleep_block t start n (kst c), pc := (pc c)(t := Suspended start n)\<rparr>"
    by (auto split: sleep_pc.splits if_splits)
  have notin: "t \<notin> set (sleeping_list (kst c))"
    using assms(1) pc by (auto simp: queue_inv_def)
  have sorted: "sq_sorted (timer_sleep_block t start n (kst c))"
    using assms(1) notin by (simp add: queue_inv_def sq_sorted_timer_sleep_block)
  have set_eq: "set (sleeping_list (timer_sleep_block t start n (kst c))) =
                insert t (set (sleeping_list (kst c)))"
    by (simp add: timer_sleep_block_def thread_block_def Let_def set_list_insert_ordered)
  have dist: "distinct (sleeping_list (timer_sleep_block t start n (kst c)))"
    using assms(1) notin
    by (simp add: timer_sleep_block_def thread_block_def Let_def queue_inv_def
          distinct_list_insert_ordered)
  show ?thesis
    unfolding queue_inv_def c'
    using assms(1) sorted dist notin
    by (auto simp: set_eq timer_sleep_block_fields queue_inv_def)
next
  case (Return t)
  from assms(2) Return obtain start n where
    pc: "pc c t = Suspended start n" and st: "status (kst c) t \<noteq> THREAD_BLOCKED" and
    c': "c' = c\<lparr>pc := (pc c)(t := Outside)\<rparr>"
    by (auto split: sleep_pc.splits if_splits)
  have "t \<notin> set (sleeping_list (kst c))"
    using assms(1) st by (auto simp: queue_inv_def)
  then show ?thesis
    unfolding c' using assms(1) by (auto simp: queue_inv_def)
qed

lemma queue_inv_run:
  "queue_inv c \<Longrightarrow> run evs c = Some c' \<Longrightarrow> queue_inv c'"
proof (induction evs arbitrary: c)
  case Nil
  then show ?case by simp
next
  case (Cons e es)
  then show ?case
    by (auto split: option.splits dest: queue_inv_step)
qed

text \<open>
  C6. The sleep queue is sorted when, for any two positions \<open>i < j\<close>, the wake tick at
  \<open>i\<close> is at most the wake tick at \<open>j\<close>. The insertion of \<open>timer_sleep\<close> (of a thread
  that is not yet queued, as the running thread is) keeps a sorted queue sorted, and so
  does the drain of the timer interrupt; \<open>timer_init\<close> leaves an empty queue. In every
  configuration the machine reaches from boot the queue is sorted.
\<close>

theorem sleep_queue_stays_sorted:
  "(sq_sorted s \<longleftrightarrow>
      (\<forall>i j. i < j \<and> j < length (sleeping_list s) \<longrightarrow>
             wake_tick s (sleeping_list s ! i) \<le>s wake_tick s (sleeping_list s ! j)))
   \<and> (sq_sorted s \<and> t \<notin> set (sleeping_list s) \<longrightarrow>
        sq_sorted (timer_sleep t n s) \<and> sq_sorted (timer_sleep_block t start n s))
   \<and> (sq_sorted s \<longrightarrow> sq_sorted (timer_interrupt s))
   \<and> sq_sorted (snd (timer_init F s))
   \<and> (run evs boot = Some c \<longrightarrow> sq_sorted (kst c))"
proof -
  have a: "sq_sorted s \<longleftrightarrow>
      (\<forall>i j. i < j \<and> j < length (sleeping_list s) \<longrightarrow>
             wake_tick s (sleeping_list s ! i) \<le>s wake_tick s (sleeping_list s ! j))"
    by (auto simp: sq_sorted_def sorted_wrt_iff_nth_less)
  have b: "sq_sorted s \<and> t \<notin> set (sleeping_list s) \<longrightarrow>
        sq_sorted (timer_sleep t n s) \<and> sq_sorted (timer_sleep_block t start n s)"
    by (simp add: sq_sorted_timer_sleep sq_sorted_timer_sleep_block)
  have c: "sq_sorted s \<longrightarrow> sq_sorted (timer_interrupt s)"
    by (simp add: sq_sorted_timer_interrupt)
  have d: "run evs boot = Some c \<longrightarrow> sq_sorted (kst c)"
    using queue_inv_run [OF queue_inv_boot, of evs c] by (simp add: queue_inv_def)
  have e: "sq_sorted (snd (timer_init F s))"
    by (simp add: timer_init_def sq_sorted_def)
  from a b c d e show ?thesis by blast
qed

theorem sleep_queue_stays_sorted_witness:
  "sq_sorted tick_example \<and> 4 \<notin> set (sleeping_list tick_example)
   \<and> sleeping_list (timer_sleep 4 1 tick_example) = [1, 2, 4, 3]
   \<and> sq_sorted (timer_sleep 4 1 tick_example)
   \<and> sleeping_list (timer_interrupt tick_example) = [3]
   \<and> sq_sorted (timer_interrupt tick_example)
   \<and> run [Enter 1 30, Block 1, Enter 2 10, Block 2, Tick, Enter 3 20, Block 3] boot \<noteq> None
   \<and> sleeping_list (kst (the (run [Enter 1 30, Block 1, Enter 2 10, Block 2, Tick, Enter 3 20, Block 3] boot))) = [2, 3, 1]
   \<and> sq_sorted (kst (the (run [Enter 1 30, Block 1, Enter 2 10, Block 2, Tick, Enter 3 20, Block 3] boot)))"
proof -
  let ?evs = "[Enter 1 30, Block 1, Enter 2 10, Block 2, Tick, Enter 3 20, Block 3]"
  have h1: "sq_sorted tick_example"
    by (simp add: sq_sorted_def tick_example_def)
  have h2: "4 \<notin> set (sleeping_list tick_example)"
    by (simp add: tick_example_def)
  have l1: "sleeping_list (timer_sleep 4 1 tick_example) = [1, 2, 4, 3]"
    by (simp add: timer_sleep_def timer_sleep_block_def thread_block_def timer_ticks_def
          wake_up_cmp_def tick_example_def Let_def word_sle_eq word_sless_alt)
  have l2: "sleeping_list (timer_interrupt tick_example) = [3]"
    by (simp add: timer_interrupt_fields tick_example_def)
  have r: "run ?evs boot \<noteq> None"
    by code_simp
  then obtain c where c: "run ?evs boot = Some c"
    by blast
  have l3: "sleeping_list (kst (the (run ?evs boot))) = [2, 3, 1]"
    by code_simp
  from sleep_queue_stays_sorted [where s = tick_example and t = 4 and n = 1 and start = 0
      and evs = ?evs and c = c] h1 h2 l1 l2 r c l3
  show ?thesis by simp
qed

subsection \<open>timer\_sleep with a non-positive argument\<close>

text \<open>
  C7. \<open>timer_sleep (n)\<close> with \<open>n \<le> 0\<close> returns the state it was given: the sleep queue,
  the status of the caller and everything else are as before. In the interleaved
  machine the call is one step that changes nothing and leaves the thread outside
  \<open>timer_sleep\<close>.
\<close>

theorem timer_sleep_nonpositive_noop:
  assumes "n \<le>s 0"
  shows "timer_sleep t n s = s
       \<and> (pc c t = Outside \<and> status (kst c) t \<noteq> THREAD_BLOCKED \<longrightarrow> step (Enter t n) c = Some c)"
  using assms by (simp add: timer_sleep_def)

theorem timer_sleep_nonpositive_noop_witness:
  "(0::int64_t) \<le>s 0 \<and> (- 7::int64_t) \<le>s 0
   \<and> timer_sleep 1 0 tick_example = tick_example
   \<and> timer_sleep 1 (- 7) tick_example = tick_example
   \<and> pc boot 1 = Outside \<and> status (kst boot) 1 \<noteq> THREAD_BLOCKED
   \<and> step (Enter 1 (- 7)) boot = Some boot"
proof -
  have h0: "(0::int64_t) \<le>s 0" by simp
  have h7: "(- 7::int64_t) \<le>s 0" by (simp add: word_sle_eq)
  have b: "pc boot 1 = Outside \<and> status (kst boot) 1 \<noteq> THREAD_BLOCKED"
    by (simp add: boot_def)
  from timer_sleep_nonpositive_noop [OF h0, of 1 tick_example boot]
       timer_sleep_nonpositive_noop [OF h7, of 1 tick_example boot] h0 h7 b
  show ?thesis by simp
qed

subsection \<open>The tick counter\<close>

lemma step_ticks:
  "step e c = Some c' \<Longrightarrow>
   ticks (kst c') = (if e = Tick then ticks (kst c) + 1 else ticks (kst c))"
  by (cases e)
     (auto simp: timer_interrupt_fields timer_sleep_block_fields Let_def
           split: if_splits sleep_pc.splits)

lemma run_ticks:
  "run evs c = Some c' \<Longrightarrow> sint (ticks (kst c)) + int (length evs) < 2 ^ 63 \<Longrightarrow>
   sint (ticks (kst c')) = sint (ticks (kst c)) + int (length (filter (\<lambda>e. e = Tick) evs))"
proof (induction evs arbitrary: c)
  case Nil
  then show ?case by simp
next
  case (Cons e es)
  from Cons.prems(1) obtain c1 where s1: "step e c = Some c1" and r: "run es c1 = Some c'"
    by (auto split: option.splits)
  show ?case
  proof (cases "e = Tick")
    case True
    have "sint (ticks (kst c)) < 2 ^ 63 - 1"
      using Cons.prems(2) by simp
    then have t1: "sint (ticks (kst c1)) = sint (ticks (kst c)) + 1"
      using step_ticks [OF s1] True by (simp add: sint_plus_one_64)
    with Cons.prems(2) have "sint (ticks (kst c1)) + int (length es) < 2 ^ 63"
      by simp
    from Cons.IH [OF r this] t1 True show ?thesis by simp
  next
    case False
    then have t1: "ticks (kst c1) = ticks (kst c)"
      using step_ticks [OF s1] by simp
    with Cons.prems(2) have "sint (ticks (kst c1)) + int (length es) < 2 ^ 63"
      by simp
    from Cons.IH [OF r this] t1 False show ?thesis by simp
  qed
qed

text \<open>
  C8. The timer interrupt adds exactly one to \<open>ticks\<close>; \<open>timer_sleep\<close> and every step
  of a run other than the interrupt leave it alone. Over any run that is short enough
  for the counter not to pass \<open>INT64_MAX\<close>, the value \<open>timer_ticks ()\<close> returns at the
  end is the value at the beginning plus the number of interrupts taken, so a later read
  is never below an earlier one.
\<close>

theorem ticks_only_advance:
  "ticks (timer_interrupt s) = ticks s + 1
   \<and> ticks (timer_sleep t n s) = ticks s
   \<and> (step e c = Some c1 \<longrightarrow>
        timer_ticks (kst c1) = (if e = Tick then timer_ticks (kst c) + 1 else timer_ticks (kst c)))
   \<and> (run evs c = Some c' \<and> sint (timer_ticks (kst c)) + int (length evs) < 2 ^ 63 \<longrightarrow>
        sint (timer_ticks (kst c')) =
          sint (timer_ticks (kst c)) + int (length (filter (\<lambda>e. e = Tick) evs))
        \<and> timer_ticks (kst c) \<le>s timer_ticks (kst c'))"
proof -
  have a: "ticks (timer_interrupt s) = ticks s + 1"
    by (simp add: timer_interrupt_fields)
  have b: "ticks (timer_sleep t n s) = ticks s"
    by (simp add: timer_sleep_def timer_sleep_block_fields Let_def)
  have c: "step e c = Some c1 \<longrightarrow>
        timer_ticks (kst c1) = (if e = Tick then timer_ticks (kst c) + 1 else timer_ticks (kst c))"
    using step_ticks [of e c c1] by (simp add: timer_ticks_def)
  have d: "run evs c = Some c' \<and> sint (timer_ticks (kst c)) + int (length evs) < 2 ^ 63 \<longrightarrow>
        sint (timer_ticks (kst c')) =
          sint (timer_ticks (kst c)) + int (length (filter (\<lambda>e. e = Tick) evs))
        \<and> timer_ticks (kst c) \<le>s timer_ticks (kst c')"
    using run_ticks [of evs c c'] by (simp add: timer_ticks_def word_sle_eq)
  from a b c d show ?thesis by blast
qed

theorem ticks_only_advance_witness:
  "run [Enter 1 2, Tick, Block 1, Tick, Tick, Return 1] boot \<noteq> None
   \<and> sint (timer_ticks (kst boot)) + int (length [Enter 1 2, Tick, Block 1, Tick, Tick, Return 1]) < 2 ^ 63
   \<and> step Tick boot \<noteq> None
   \<and> timer_ticks (kst (the (step Tick boot))) = 1
   \<and> sint (timer_ticks (kst (the (run [Enter 1 2, Tick, Block 1, Tick, Tick, Return 1] boot)))) = 3
   \<and> timer_ticks (kst boot) \<le>s
       timer_ticks (kst (the (run [Enter 1 2, Tick, Block 1, Tick, Tick, Return 1] boot)))"
proof -
  let ?evs = "[Enter 1 2, Tick, Block 1, Tick, Tick, Return 1]"
  have r: "run ?evs boot \<noteq> None"
    by code_simp
  then obtain c' where c': "run ?evs boot = Some c'"
    by blast
  have b: "sint (timer_ticks (kst boot)) + int (length ?evs) < 2 ^ 63"
    by (simp add: boot_def timer_ticks_def)
  have s: "step Tick boot \<noteq> None"
    by simp
  then obtain c1 where c1: "step Tick boot = Some c1"
    by blast
  have t0: "timer_ticks (kst boot) = 0"
    by (simp add: boot_def timer_ticks_def)
  from ticks_only_advance [where s = "kst boot" and t = 1 and n = 2 and e = Tick and c = boot
      and ?c1.0 = c1 and evs = ?evs and c' = c'] c' c1 b r s t0
  show ?thesis
    by simp
qed

subsection \<open>What a tick wakes\<close>

text \<open>
  C3, as the code has it. The handler first increments \<open>ticks\<close> and then drains the head
  of the queue: the threads it unblocks are, in queue order, the longest run of sleepers
  at the head whose wake tick is at most the incremented counter, and the queue is left
  with the rest. In a sorted queue every sleeper whose wake tick is at most the
  incremented counter (the counter at handler entry plus one) is unblocked during this
  tick and is ready, and every sleeper whose wake tick is greater than the incremented
  counter stays queued with its status unchanged.
\<close>

theorem timer_interrupt_drains_due_head:
  assumes "sq_sorted s"
  shows "ticks (timer_interrupt s) = ticks s + 1
       \<and> unblock_calls (timer_interrupt s) =
           unblock_calls s @ takeWhile (\<lambda>t. wake_tick s t \<le>s ticks s + 1) (sleeping_list s)
       \<and> sleeping_list (timer_interrupt s) =
           dropWhile (\<lambda>t. wake_tick s t \<le>s ticks s + 1) (sleeping_list s)
       \<and> (\<forall>t\<in>set (sleeping_list s).
            (wake_tick s t \<le>s ticks s + 1 \<longrightarrow>
               t \<in> set (takeWhile (\<lambda>t. wake_tick s t \<le>s ticks s + 1) (sleeping_list s))
               \<and> t \<notin> set (sleeping_list (timer_interrupt s))
               \<and> status (timer_interrupt s) t = THREAD_READY)
          \<and> (ticks s + 1 <s wake_tick s t \<longrightarrow>
               t \<notin> set (takeWhile (\<lambda>t. wake_tick s t \<le>s ticks s + 1) (sleeping_list s))
               \<and> t \<in> set (sleeping_list (timer_interrupt s))
               \<and> status (timer_interrupt s) t = status s t))"
proof -
  let ?due = "\<lambda>t. wake_tick s t \<le>s ticks s + 1"
  have sorted: "sorted_wrt (\<lambda>a b. wake_tick s a \<le>s wake_tick s b) (sleeping_list s)"
    using assms by (simp add: sq_sorted_def)
  have tw: "set (takeWhile ?due (sleeping_list s)) = {e \<in> set (sleeping_list s). ?due e}"
    by (rule sorted_takeWhile_filter(1) [OF sorted])
  have dw: "set (dropWhile ?due (sleeping_list s)) =
            {e \<in> set (sleeping_list s). ticks s + 1 <s wake_tick s e}"
    by (rule sorted_takeWhile_filter(2) [OF sorted])
  have neg: "(ticks s + 1 <s wake_tick s t) = (\<not> ?due t)" for t
    by (auto simp: word_sle_eq word_sless_alt)
  show ?thesis
    by (simp add: timer_interrupt_fields tw dw neg)
qed

theorem timer_interrupt_drains_due_head_witness:
  "sq_sorted tick_example
   \<and> ticks tick_example = 5 \<and> ticks (timer_interrupt tick_example) = 6
   \<and> unblock_calls (timer_interrupt tick_example) = [1, 2]
   \<and> sleeping_list (timer_interrupt tick_example) = [3]
   \<and> 2 \<in> set (sleeping_list tick_example) \<and> wake_tick tick_example 2 = 6
   \<and> status (timer_interrupt tick_example) 2 = THREAD_READY
   \<and> 3 \<in> set (sleeping_list tick_example) \<and> wake_tick tick_example 3 = 7
   \<and> status (timer_interrupt tick_example) 3 = THREAD_BLOCKED"
proof -
  have h: "sq_sorted tick_example"
    by (simp add: sq_sorted_def tick_example_def)
  from timer_interrupt_drains_due_head [OF h] h show ?thesis
    by (simp add: tick_example_def word_sle_eq word_sless_alt)
qed

theorem timer_interrupt_entry_tick_counterexample:
  "ticks tick_example = 5
   \<and> sleeping_list tick_example = [1, 2, 3]
   \<and> wake_tick tick_example 2 = ticks tick_example + 1
   \<and> status tick_example 2 = THREAD_BLOCKED
   \<and> unblock_calls (timer_interrupt tick_example) = [1, 2]
   \<and> status (timer_interrupt tick_example) 2 = THREAD_READY
   \<and> sleeping_list (timer_interrupt tick_example) = [3]"
  by (simp add: timer_interrupt_fields tick_example_def word_sle_eq)

subsection \<open>Sleepers are not woken early\<close>

lemma wake_inv_boot: "wake_inv boot"
  by (simp add: wake_inv_def boot_def)

lemma wake_inv_step:
  assumes q: "queue_inv c" and w: "wake_inv c" and s: "step e c = Some c1"
    and b: "sint (ticks (kst c)) < 2 ^ 63 - 1"
  shows "wake_inv c1"
proof (cases e)
  case Tick
  let ?s = "kst c"
  let ?due = "\<lambda>t. wake_tick ?s t \<le>s ticks ?s + 1"
  have c1: "c1 = c\<lparr>kst := timer_interrupt ?s\<rparr>"
    using s Tick by simp
  have sorted: "sorted_wrt (\<lambda>a b. wake_tick ?s a \<le>s wake_tick ?s b) (sleeping_list ?s)"
    using q by (simp add: queue_inv_def sq_sorted_def)
  have dw: "set (dropWhile ?due (sleeping_list ?s)) =
            {e \<in> set (sleeping_list ?s). ticks ?s + 1 <s wake_tick ?s e}"
    by (rule sorted_takeWhile_filter(2) [OF sorted])
  have up: "sint (ticks ?s + 1) = sint (ticks ?s) + 1"
    using b by (rule sint_plus_one_64)
  have later: "start + n \<le>s ticks ?s + 1"
    if "pc c t = Suspended start n" "t \<notin> set (dropWhile ?due (sleeping_list ?s))" for t start n
  proof (cases "t \<in> set (sleeping_list ?s)")
    case True
    with q that(1) have "wake_tick ?s t = start + n"
      by (auto simp: queue_inv_def)
    moreover from True that(2) have "\<not> ticks ?s + 1 <s wake_tick ?s t"
      by (simp add: dw)
    ultimately show ?thesis
      by (simp add: word_sle_eq word_sless_alt)
  next
    case False
    with w that(1) have "start + n \<le>s ticks ?s"
      by (auto simp: wake_inv_def)
    then show ?thesis
      using up by (simp add: word_sle_eq)
  qed
  then have later': "\<forall>t start n. pc c t = Suspended start n \<longrightarrow>
      t \<in> set (dropWhile ?due (sleeping_list ?s)) \<or> start + n \<le>s ticks ?s + 1"
    by blast
  show ?thesis
    unfolding wake_inv_def c1
    using w later' by (auto simp: wake_inv_def timer_interrupt_fields)
next
  case (Enter t n)
  show ?thesis
  proof (cases "n \<le>s 0")
    case True
    with s Enter w show ?thesis
      by (auto split: if_splits)
  next
    case False
    then have pos: "0 <s n"
      by (simp add: word_sle_eq word_sless_alt)
    from s Enter False have c1: "c1 = c\<lparr>pc := (pc c)(t := Entered (timer_ticks (kst c)) n)\<rparr>"
      by (auto simp: Let_def split: if_splits)
    show ?thesis
      unfolding wake_inv_def c1
      using w pos by (simp add: wake_inv_def)
  qed
next
  case (Block t)
  from s Block obtain start n where
    pc: "pc c t = Entered start n" and
    c1: "c1 = c\<lparr>kst := timer_sleep_block t start n (kst c), pc := (pc c)(t := Suspended start n)\<rparr>"
    by (auto split: sleep_pc.splits if_splits)
  have set_eq: "set (sleeping_list (timer_sleep_block t start n (kst c))) =
                insert t (set (sleeping_list (kst c)))"
    by (simp add: timer_sleep_block_def thread_block_def Let_def set_list_insert_ordered)
  show ?thesis
    unfolding wake_inv_def c1
    using w pc by (auto simp: wake_inv_def set_eq timer_sleep_block_fields)
next
  case (Return t)
  with s have c1: "c1 = c\<lparr>pc := (pc c)(t := Outside)\<rparr>"
    by (auto split: sleep_pc.splits if_splits)
  show ?thesis
    unfolding wake_inv_def c1
    using w by (simp add: wake_inv_def)
qed

lemma run_invs:
  "run evs c = Some c' \<Longrightarrow> queue_inv c \<Longrightarrow> wake_inv c \<Longrightarrow>
   sint (ticks (kst c)) + int (length evs) < 2 ^ 63 \<Longrightarrow> queue_inv c' \<and> wake_inv c'"
proof (induction evs arbitrary: c)
  case Nil
  then show ?case by simp
next
  case (Cons e es)
  from Cons.prems(1) obtain c1 where s1: "step e c = Some c1" and r: "run es c1 = Some c'"
    by (auto split: option.splits)
  have b: "sint (ticks (kst c)) < 2 ^ 63 - 1"
    using Cons.prems(4) by simp
  have q1: "queue_inv c1"
    using Cons.prems(2) s1 by (rule queue_inv_step)
  have w1: "wake_inv c1"
    using Cons.prems(2,3) s1 b by (rule wake_inv_step)
  have "sint (ticks (kst c1)) \<le> sint (ticks (kst c)) + 1"
    using step_ticks [OF s1] b by (simp add: sint_plus_one_64)
  with Cons.prems(4) have "sint (ticks (kst c1)) + int (length es) < 2 ^ 63"
    by simp
  from Cons.IH [OF r q1 w1 this] show ?case .
qed

text \<open>
  C2, for sleeps that end within the range of \<open>int64_t\<close>.
  Take any run of the machine from boot that is short enough for the tick
  counter not to wrap, and a thread \<open>t\<close> that is inside \<open>timer_sleep (n)\<close>, suspended,
  having captured \<open>start\<close> on line 153, with \<open>start + n\<close> no more than \<open>INT64_MAX\<close>. Then
  \<open>n\<close> is positive; as long as the tick counter is below \<open>start + n\<close> the thread is
  blocked, is in the sleep queue and cannot return; and when it returns, \<open>timer_ticks ()\<close>
  is at least \<open>start + n\<close>. The sum and the comparisons are those of the integers.
\<close>

theorem timer_sleep_resumes_no_earlier:
  assumes "run evs boot = Some c" and "int (length evs) < 2 ^ 63"
    and "pc c t = Suspended start n"
    and fits: "sint start + sint n < 2 ^ 63"
  shows "0 < sint n
       \<and> (sint (timer_ticks (kst c)) < sint start + sint n \<longrightarrow>
            status (kst c) t = THREAD_BLOCKED \<and> t \<in> set (sleeping_list (kst c))
            \<and> step (Return t) c = None)
       \<and> (\<forall>c'. step (Return t) c = Some c' \<longrightarrow>
            sint start + sint n \<le> sint (timer_ticks (kst c')))"
proof -
  have "sint (ticks (kst boot)) + int (length evs) < 2 ^ 63"
    using assms(2) by (simp add: boot_def)
  with assms(1) have q: "queue_inv c" and w: "wake_inv c"
    using run_invs [OF _ queue_inv_boot wake_inv_boot] by blast+
  from w assms(3) have pos: "0 < sint n"
    and alt: "t \<in> set (sleeping_list (kst c)) \<or> start + n \<le>s ticks (kst c)"
    by (auto simp: wake_inv_def word_sless_alt)
  have sum: "sint (start + n) = sint start + sint n"
  proof -
    have lo: "- (2 ^ 63) \<le> sint start + sint n"
      using pos sint_ge [of start] by simp
    have "sint (start + n) = signed_take_bit 63 (sint start + sint n)"
      by (simp add: sint_word_ariths)
    also have "\<dots> = sint start + sint n"
      using lo fits by (intro signed_take_bit_int_eq_self) simp_all
    finally show ?thesis .
  qed
  have early: "status (kst c) t = THREAD_BLOCKED \<and> t \<in> set (sleeping_list (kst c))
               \<and> step (Return t) c = None"
    if "sint (timer_ticks (kst c)) < sint start + sint n"
  proof -
    from that sum have "timer_ticks (kst c) <s start + n"
      by (simp add: word_sless_alt)
    with alt have "t \<in> set (sleeping_list (kst c))"
      by (auto simp: word_sle_eq word_sless_alt timer_ticks_def)
    moreover from this q have "status (kst c) t = THREAD_BLOCKED"
      by (auto simp: queue_inv_def)
    ultimately show ?thesis
      using assms(3) by simp
  qed
  have late: "sint start + sint n \<le> sint (timer_ticks (kst c'))"
    if "step (Return t) c = Some c'" for c'
  proof -
    from that assms(3) have nb: "status (kst c) t \<noteq> THREAD_BLOCKED" and k: "kst c' = kst c"
      by (auto split: if_splits)
    from nb q have "t \<notin> set (sleeping_list (kst c))"
      by (auto simp: queue_inv_def)
    with alt have "start + n \<le>s ticks (kst c)"
      by simp
    then show ?thesis
      using k sum by (simp add: timer_ticks_def word_sle_eq)
  qed
  from pos early late show ?thesis by blast
qed

theorem timer_sleep_resumes_no_earlier_witness:
  "run early_run boot \<noteq> None
   \<and> pc (the (run early_run boot)) 1 = Suspended 0 2
   \<and> timer_ticks (kst (the (run early_run boot))) = 1
   \<and> step (Return 1) (the (run early_run boot)) = None
   \<and> run due_run boot \<noteq> None
   \<and> pc (the (run due_run boot)) 1 = Suspended 0 2
   \<and> step (Return 1) (the (run due_run boot)) \<noteq> None
   \<and> sint (0::int64_t) + sint (2::int64_t)
       \<le> sint (timer_ticks (kst (the (step (Return 1) (the (run due_run boot))))))"
proof -
  have r1: "run early_run boot \<noteq> None"
    by code_simp
  then obtain c1 where c1: "run early_run boot = Some c1"
    by blast
  have p1: "pc (the (run early_run boot)) 1 = Suspended 0 2"
    by code_simp
  have t1: "timer_ticks (kst (the (run early_run boot))) = 1"
    by code_simp
  have r2: "run due_run boot \<noteq> None"
    by code_simp
  then obtain c2 where c2: "run due_run boot = Some c2"
    by blast
  have p2: "pc (the (run due_run boot)) 1 = Suspended 0 2"
    by code_simp
  have s2: "step (Return 1) (the (run due_run boot)) \<noteq> None"
    by code_simp
  then obtain c3 where c3: "step (Return 1) c2 = Some c3"
    unfolding c2 option.sel by blast
  have len: "int (length early_run) < 2 ^ 63" "int (length due_run) < 2 ^ 63"
    by (simp_all add: early_run_def due_run_def)
  have sum: "sint (0::int64_t) + sint (2::int64_t) < 2 ^ 63"
    by simp
  have p1': "pc c1 1 = Suspended 0 2"
    using p1 unfolding c1 option.sel .
  have p2': "pc c2 1 = Suspended 0 2"
    using p2 unfolding c2 option.sel .
  have t1': "sint (timer_ticks (kst c1)) < sint (0::int64_t) + sint (2::int64_t)"
    using t1 unfolding c1 option.sel by simp
  have a: "step (Return 1) c1 = None"
    using timer_sleep_resumes_no_earlier [OF c1 len(1) p1' sum] t1' by blast
  have b: "sint (0::int64_t) + sint (2::int64_t) \<le> sint (timer_ticks (kst c3))"
    using timer_sleep_resumes_no_earlier [OF c2 len(2) p2' sum] c3 by blast
  show ?thesis
    using a b r1 p1 t1 r2 p2 s2 c3 unfolding c1 c2 option.sel by simp
qed

text \<open>
  A sleep of \<open>INT64_MAX\<close> ticks begun at tick 1: the sum of line 159 wraps to \<open>INT64_MIN\<close>,
  the next tick finds the sleeper due, and the call returns at tick 2.
\<close>

theorem timer_sleep_wrapped_wake_tick_counterexample:
  "run overflow_run boot \<noteq> None
   \<and> pc (the (run overflow_run boot)) 1 = Suspended 1 9223372036854775807
   \<and> 0 < sint (9223372036854775807 :: int64_t)
   \<and> step (Return 1) (the (run overflow_run boot)) \<noteq> None
   \<and> timer_ticks (kst (the (step (Return 1) (the (run overflow_run boot))))) = 2
   \<and> sint (2 :: int64_t) < sint (1 :: int64_t) + sint (9223372036854775807 :: int64_t)"
proof -
  have "run overflow_run boot \<noteq> None"
    by code_simp
  moreover have "pc (the (run overflow_run boot)) 1 = Suspended 1 9223372036854775807"
    by code_simp
  moreover have "0 < sint (9223372036854775807 :: int64_t)"
    by simp
  moreover have "step (Return 1) (the (run overflow_run boot)) \<noteq> None"
    by code_simp
  moreover have "timer_ticks (kst (the (step (Return 1) (the (run overflow_run boot))))) = 2"
    by code_simp
  moreover have "sint (2 :: int64_t) < sint (1 :: int64_t) + sint (9223372036854775807 :: int64_t)"
    by simp
  ultimately show ?thesis by blast
qed

subsection \<open>Equal wake ticks are served first in, first out\<close>

lemma takeWhile_list_insert_ordered:
  "w \<noteq> t \<Longrightarrow>
   set (takeWhile (\<lambda>x. x \<noteq> t) xs) \<subseteq> set (takeWhile (\<lambda>x. x \<noteq> t) (list_insert_ordered lt w xs))"
  by (induction xs) auto

lemma step_service_order:
  assumes q: "queue_inv c" and s: "step e c = Some c1"
    and k: "k \<le> length (unblock_calls (kst c))"
    and u: "u \<in> set (takeWhile (\<lambda>x. x \<noteq> t) (service_order k (kst c)))"
    and t: "t \<in> set (service_order k (kst c))"
  shows "u \<in> set (takeWhile (\<lambda>x. x \<noteq> t) (service_order k (kst c1)))
       \<and> t \<in> set (service_order k (kst c1))
       \<and> k \<le> length (unblock_calls (kst c1))"
proof (cases e)
  case Tick
  with s have "service_order k (kst c1) = service_order k (kst c)"
    using k by (auto simp: service_order_def timer_interrupt_fields)
  moreover from s Tick have "k \<le> length (unblock_calls (kst c1))"
    using k by (auto simp: timer_interrupt_fields)
  ultimately show ?thesis
    using u t by simp
next
  case (Enter w n)
  with s have "kst c1 = kst c"
    by (auto simp: Let_def split: if_splits)
  with u t k show ?thesis by simp
next
  case (Return w)
  with s have "kst c1 = kst c"
    by (auto split: sleep_pc.splits if_splits)
  with u t k show ?thesis by simp
next
  case (Block w)
  let ?new = "drop k (unblock_calls (kst c))"
  let ?q = "sleeping_list (kst c)"
  from s Block obtain start n where
    pc: "pc c w = Entered start n" and
    c1: "kst c1 = timer_sleep_block w start n (kst c)"
    by (auto split: sleep_pc.splits if_splits)
  define q' where "q' = sleeping_list (kst c1)"
  have wq: "w \<notin> set ?q"
    using q pc by (auto simp: queue_inv_def)
  have so: "service_order k (kst c1) = ?new @ q'"
    by (simp add: service_order_def c1 q'_def timer_sleep_block_fields)
  have q'_set: "set q' = insert w (set ?q)"
    by (simp add: q'_def c1 timer_sleep_block_def thread_block_def Let_def
          set_list_insert_ordered)
  have k1: "k \<le> length (unblock_calls (kst c1))"
    using k by (simp add: c1 timer_sleep_block_fields)
  show ?thesis
  proof (cases "t \<in> set ?new")
    case True
    then have e1: "takeWhile (\<lambda>x. x \<noteq> t) (service_order k (kst c1)) =
                   takeWhile (\<lambda>x. x \<noteq> t) ?new"
      unfolding so by (simp add: takeWhile_append1)
    from True have e0: "takeWhile (\<lambda>x. x \<noteq> t) (service_order k (kst c)) =
                        takeWhile (\<lambda>x. x \<noteq> t) ?new"
      unfolding service_order_def by (simp add: takeWhile_append1)
    have "t \<in> set (service_order k (kst c1))"
      unfolding so using True by simp
    with u k1 show ?thesis
      unfolding e1 e0 by simp
  next
    case False
    with t have tq: "t \<in> set ?q"
      by (simp add: service_order_def)
    with wq have ne: "w \<noteq> t" by auto
    have a1: "takeWhile (\<lambda>x. x \<noteq> t) (?new @ ?q) = ?new @ takeWhile (\<lambda>x. x \<noteq> t) ?q"
      using False by (intro takeWhile_append2) auto
    have a2: "takeWhile (\<lambda>x. x \<noteq> t) (?new @ q') = ?new @ takeWhile (\<lambda>x. x \<noteq> t) q'"
      using False by (intro takeWhile_append2) auto
    have "set (takeWhile (\<lambda>x. x \<noteq> t) ?q) \<subseteq> set (takeWhile (\<lambda>x. x \<noteq> t) q')"
      using takeWhile_list_insert_ordered [OF ne]
      by (simp add: q'_def c1 timer_sleep_block_def thread_block_def Let_def)
    moreover from u have "u \<in> set (?new @ takeWhile (\<lambda>x. x \<noteq> t) ?q)"
      unfolding service_order_def a1 .
    ultimately have "u \<in> set (takeWhile (\<lambda>x. x \<noteq> t) (service_order k (kst c1)))"
      unfolding so a2 by auto
    moreover have "t \<in> set (service_order k (kst c1))"
      unfolding so using tq q'_set by simp
    ultimately show ?thesis
      using k1 by simp
  qed
qed

lemma run_service_order:
  "run evs c = Some c' \<Longrightarrow> queue_inv c \<Longrightarrow> k \<le> length (unblock_calls (kst c)) \<Longrightarrow>
   u \<in> set (takeWhile (\<lambda>x. x \<noteq> t) (service_order k (kst c))) \<Longrightarrow>
   t \<in> set (service_order k (kst c)) \<Longrightarrow>
   u \<in> set (takeWhile (\<lambda>x. x \<noteq> t) (service_order k (kst c')))"
proof (induction evs arbitrary: c)
  case Nil
  then show ?case by simp
next
  case (Cons e es)
  from Cons.prems(1) obtain c1 where s1: "step e c = Some c1" and r: "run es c1 = Some c'"
    by (auto split: option.splits)
  have q1: "queue_inv c1"
    using Cons.prems(2) s1 by (rule queue_inv_step)
  from step_service_order [OF Cons.prems(2) s1 Cons.prems(3,4,5)]
  have "u \<in> set (takeWhile (\<lambda>x. x \<noteq> t) (service_order k (kst c1)))"
    and "t \<in> set (service_order k (kst c1))"
    and "k \<le> length (unblock_calls (kst c1))"
    by simp_all
  with Cons.IH [OF r q1] show ?case by simp
qed

lemma fifo_after_block:
  assumes inv: "queue_inv c"
    and pc: "pc c t = Entered start n"
    and u: "u \<in> set (sleeping_list (kst c))"
    and eq: "wake_tick (kst c) u \<le>s start + n"
    and run: "run (Block t # evs) c = Some c'"
  shows "u \<in> set (takeWhile (\<lambda>x. x \<noteq> t) (service_order (length (unblock_calls (kst c))) (kst c')))"
proof -
  let ?s = "kst c"
  let ?k = "length (unblock_calls ?s)"
  let ?P = "\<lambda>u. wake_tick ?s u \<le>s start + n"
  from run pc obtain c1 where
    s1: "step (Block t) c = Some c1" and r: "run evs c1 = Some c'"
    by (auto split: option.splits)
  from s1 pc have c1: "kst c1 = timer_sleep_block t start n ?s"
    by (auto split: if_splits)
  have q1: "queue_inv c1"
    using inv s1 by (rule queue_inv_step)
  have notin: "t \<notin> set (sleeping_list ?s)"
    using inv pc by (auto simp: queue_inv_def)
  have sorted: "sorted_wrt (\<lambda>a b. wake_tick ?s a \<le>s wake_tick ?s b) (sleeping_list ?s)"
    using inv by (simp add: queue_inv_def sq_sorted_def)
  have ub: "u \<in> set (takeWhile ?P (sleeping_list ?s))"
    using u eq by (simp add: sorted_takeWhile_filter(1) [OF sorted])
  have tb: "\<forall>x\<in>set (takeWhile ?P (sleeping_list ?s)). x \<noteq> t"
    using notin by (auto dest: set_takeWhileD)
  have so: "service_order ?k (kst c1) =
            takeWhile ?P (sleeping_list ?s) @ t # dropWhile ?P (sleeping_list ?s)"
    by (simp add: service_order_def c1 timer_sleep_block_fields timer_sleep_block_list [OF notin])
  have "takeWhile (\<lambda>x. x \<noteq> t) (service_order ?k (kst c1)) = takeWhile ?P (sleeping_list ?s)"
    unfolding so using tb by (simp add: takeWhile_append2)
  with ub have a: "u \<in> set (takeWhile (\<lambda>x. x \<noteq> t) (service_order ?k (kst c1)))"
    by simp
  have b: "t \<in> set (service_order ?k (kst c1))"
    by (simp add: so)
  have k: "?k \<le> length (unblock_calls (kst c1))"
    by (simp add: c1 timer_sleep_block_fields)
  from run_service_order [OF r q1 k a b] show ?thesis .
qed

lemma unblocked_after:
  assumes "u \<in> set (takeWhile (\<lambda>x. x \<noteq> t) (service_order k s))"
    and "t \<in> set (drop k (unblock_calls s))"
  shows "u \<in> set (takeWhile (\<lambda>x. x \<noteq> t) (drop k (unblock_calls s)))"
  using assms by (simp add: service_order_def takeWhile_append1)

text \<open>
  C4, in the order of the insertions.
  When the critical section of \<open>timer_sleep\<close> links thread \<open>t\<close> into a
  sorted queue, the queue splits into the entries in front of \<open>t\<close>, whose wake ticks are
  at most that of \<open>t\<close> (all the equal ones are among them), and the entries behind it,
  whose wake ticks are greater. A call with \<open>n > 0\<close> that is not interrupted is that
  insertion at \<open>start = timer_ticks ()\<close>. And in any run that goes on from the insertion,
  once \<open>t\<close> has been unblocked, a sleeper \<open>u\<close> that was queued with the same wake tick
  when \<open>t\<close> was inserted has been unblocked before it: sleepers with equal wake ticks are
  unblocked in the order in which line 161 inserted them, which need not be the order in
  which they called \<open>timer_sleep\<close>.
\<close>

theorem timer_sleep_inserts_behind_equal_wake_ticks:
  assumes "sq_sorted s" and "t \<notin> set (sleeping_list s)"
  shows "(\<exists>before after.
            sleeping_list s = before @ after
          \<and> sleeping_list (timer_sleep_block t start n s) = before @ t # after
          \<and> (\<forall>u\<in>set before. wake_tick s u \<le>s start + n)
          \<and> (\<forall>u\<in>set after. start + n <s wake_tick s u))
       \<and> (0 <s n \<longrightarrow> timer_sleep t n s = timer_sleep_block t (timer_ticks s) n s)
       \<and> (queue_inv c \<and> kst c = s \<and> pc c t = Entered start n
            \<and> u \<in> set (sleeping_list s) \<and> wake_tick s u = start + n
            \<and> run (Block t # evs) c = Some c'
            \<and> t \<in> set (drop (length (unblock_calls s)) (unblock_calls (kst c'))) \<longrightarrow>
            u \<in> set (takeWhile (\<lambda>x. x \<noteq> t)
                         (drop (length (unblock_calls s)) (unblock_calls (kst c')))))"
proof -
  let ?P = "\<lambda>u. wake_tick s u \<le>s start + n"
  have sorted: "sorted_wrt (\<lambda>a b. wake_tick s a \<le>s wake_tick s b) (sleeping_list s)"
    using assms(1) by (simp add: sq_sorted_def)
  have 1: "sleeping_list s = takeWhile ?P (sleeping_list s) @ dropWhile ?P (sleeping_list s)"
    by simp
  have 2: "sleeping_list (timer_sleep_block t start n s) =
           takeWhile ?P (sleeping_list s) @ t # dropWhile ?P (sleeping_list s)"
    using assms(2) by (rule timer_sleep_block_list)
  have 3: "\<forall>u\<in>set (takeWhile ?P (sleeping_list s)). wake_tick s u \<le>s start + n"
    by (auto dest: set_takeWhileD)
  have 4: "\<forall>u\<in>set (dropWhile ?P (sleeping_list s)). start + n <s wake_tick s u"
    by (simp add: sorted_takeWhile_filter(2) [OF sorted])
  have a: "\<exists>before after.
            sleeping_list s = before @ after
          \<and> sleeping_list (timer_sleep_block t start n s) = before @ t # after
          \<and> (\<forall>u\<in>set before. wake_tick s u \<le>s start + n)
          \<and> (\<forall>u\<in>set after. start + n <s wake_tick s u)"
    using 1 2 3 4 by blast
  have b: "0 <s n \<longrightarrow> timer_sleep t n s = timer_sleep_block t (timer_ticks s) n s"
    by (simp add: timer_sleep_def word_sle_eq word_sless_alt)
  have c: "queue_inv c \<and> kst c = s \<and> pc c t = Entered start n
            \<and> u \<in> set (sleeping_list s) \<and> wake_tick s u = start + n
            \<and> run (Block t # evs) c = Some c'
            \<and> t \<in> set (drop (length (unblock_calls s)) (unblock_calls (kst c'))) \<longrightarrow>
            u \<in> set (takeWhile (\<lambda>x. x \<noteq> t)
                         (drop (length (unblock_calls s)) (unblock_calls (kst c'))))"
    using fifo_after_block [of c t start n u evs c']
      unblocked_after [of u t "length (unblock_calls s)" "kst c'"]
    by auto
  from a b c show ?thesis by blast
qed

theorem timer_sleep_inserts_behind_equal_wake_ticks_witness:
  "sq_sorted (kst fifo_example) \<and> 2 \<notin> set (sleeping_list (kst fifo_example))
   \<and> (0::int64_t) <s 5
   \<and> queue_inv fifo_example \<and> pc fifo_example 2 = Entered 0 5
   \<and> 1 \<in> set (sleeping_list (kst fifo_example)) \<and> wake_tick (kst fifo_example) 1 = 0 + 5
   \<and> sleeping_list (timer_sleep 2 5 (kst fifo_example)) = [1, 2]
   \<and> run (Block 2 # fifo_run) fifo_example \<noteq> None
   \<and> unblock_calls (kst fifo_example) = []
   \<and> unblock_calls (kst (the (run (Block 2 # fifo_run) fifo_example))) = [1, 2]
   \<and> 1 \<in> set (takeWhile (\<lambda>x. x \<noteq> 2)
        (drop (length (unblock_calls (kst fifo_example)))
           (unblock_calls (kst (the (run (Block 2 # fifo_run) fifo_example))))))"
proof -
  have h1: "sq_sorted (kst fifo_example)"
    by (simp add: sq_sorted_def fifo_example_def)
  have h2: "2 \<notin> set (sleeping_list (kst fifo_example))"
    by (simp add: fifo_example_def)
  have h3: "(0::int64_t) <s 5"
    by (simp add: word_sless_alt)
  have h4: "queue_inv fifo_example"
    by (simp add: queue_inv_def sq_sorted_def fifo_example_def)
  have h5: "pc fifo_example 2 = Entered 0 5"
    "1 \<in> set (sleeping_list (kst fifo_example))" "wake_tick (kst fifo_example) 1 = 0 + 5"
    "timer_ticks (kst fifo_example) = 0" "unblock_calls (kst fifo_example) = []"
    by (simp_all add: fifo_example_def timer_ticks_def)
  have l: "sleeping_list (timer_sleep_block 2 0 5 (kst fifo_example)) = [1, 2]"
    by code_simp
  have r: "run (Block 2 # fifo_run) fifo_example \<noteq> None"
    by code_simp
  then obtain c' where c': "run (Block 2 # fifo_run) fifo_example = Some c'"
    by blast
  have "unblock_calls (kst (the (run (Block 2 # fifo_run) fifo_example))) = [1, 2]"
    by code_simp
  then have u: "unblock_calls (kst c') = [1, 2]"
    unfolding c' option.sel .
  have m: "2 \<in> set (drop (length (unblock_calls (kst fifo_example))) (unblock_calls (kst c')))"
    by (simp add: u h5(5))
  from timer_sleep_inserts_behind_equal_wake_ticks
        [OF h1 h2, where start = 0 and n = 5 and c = fifo_example and u = 1 and evs = fifo_run
          and c' = c']
    h3 h4 h5(1,2,3) c' m
  have f: "1 \<in> set (takeWhile (\<lambda>x. x \<noteq> 2)
             (drop (length (unblock_calls (kst fifo_example))) (unblock_calls (kst c'))))"
    and g: "timer_sleep 2 5 (kst fifo_example) = timer_sleep_block 2 (timer_ticks (kst fifo_example)) 5 (kst fifo_example)"
    by blast+
  have l': "sleeping_list (timer_sleep 2 5 (kst fifo_example)) = [1, 2]"
    unfolding g h5(4) by (rule l)
  show ?thesis
    using h1 h2 h3 h4 h5 l' r u f unfolding c' option.sel by simp
qed

text \<open>
  Thread 1 calls \<open>timer_sleep (5)\<close> at tick 0 and is interrupted after line 153, before
  it has disabled interrupts; thread 2 calls \<open>timer_sleep (4)\<close> at tick 1 and queues
  itself; then thread 1 queues itself, behind thread 2. Both are due at tick 5, and
  thread 2, the later caller, is unblocked first.
\<close>

theorem timer_sleep_call_order_counterexample:
  "pc (the (run (take 1 overtaking_run) boot)) 1 = Entered 0 5
   \<and> pc (the (run (take 1 overtaking_run) boot)) 2 = Outside
   \<and> pc (the (run (take 3 overtaking_run) boot)) 2 = Entered 1 4
   \<and> run overtaking_run boot \<noteq> None
   \<and> timer_ticks (kst (the (run overtaking_run boot))) = 5
   \<and> wake_tick (kst (the (run overtaking_run boot))) 1 = 5
   \<and> wake_tick (kst (the (run overtaking_run boot))) 2 = 5
   \<and> unblock_calls (kst (the (run overtaking_run boot))) = [2, 1]"
proof -
  have "pc (the (run (take 1 overtaking_run) boot)) 1 = Entered 0 5"
    by code_simp
  moreover have "pc (the (run (take 1 overtaking_run) boot)) 2 = Outside"
    by code_simp
  moreover have "pc (the (run (take 3 overtaking_run) boot)) 2 = Entered 1 4"
    by code_simp
  moreover have "run overtaking_run boot \<noteq> None"
    by code_simp
  moreover have "timer_ticks (kst (the (run overtaking_run boot))) = 5"
    by code_simp
  moreover have "wake_tick (kst (the (run overtaking_run boot))) 1 = 5"
    by code_simp
  moreover have "wake_tick (kst (the (run overtaking_run boot))) 2 = 5"
    by code_simp
  moreover have "unblock_calls (kst (the (run overtaking_run boot))) = [2, 1]"
    by code_simp
  ultimately show ?thesis by blast
qed

end
